theory Spec2Isabelle
  imports Main "HOL-Library.Multiset" "HOL-Library.Char_ord" "HOL-Library.List_Lexorder"
begin

section \<open>Provider payloads and Python's operations on them\<close>

text \<open>
  \<^verbatim>\<open>response.json()\<close> hands the analyzer a decoded JSON document. Objects are
  association lists in key order (a key is looked up with \<open>map_of\<close>, keys are meant to be
  distinct); numbers are integers, which is all the provider sends in the fields read here.
\<close>

datatype json =
    JNull
  | JBool bool
  | JNum int
  | JStr string
  | JArr "json list"
  | JObj "(string \<times> json) list"

datatype error = KeyError | TypeError | AttributeError | OverflowError

record response =
  status_code :: int
  body :: json

text \<open>\<^verbatim>\<open>not x\<close> is the negation of Python's truth value of \<open>x\<close>.\<close>

fun truthy :: "json \<Rightarrow> bool" where
  "truthy JNull = False"
| "truthy (JBool b) = b"
| "truthy (JNum n) = (n \<noteq> 0)"
| "truthy (JStr s) = (s \<noteq> [])"
| "truthy (JArr xs) = (xs \<noteq> [])"
| "truthy (JObj kvs) = (kvs \<noteq> [])"

text \<open>
  What \<^verbatim>\<open>list.extend(x)\<close> appends: the elements of a list, the keys of a dict, the
  characters of a string; every other value is not iterable.
\<close>

fun iterate :: "json \<Rightarrow> error + json list" where
  "iterate (JArr xs) = Inr xs"
| "iterate (JObj kvs) = Inr (map (\<lambda>kv. JStr (fst kv)) kvs)"
| "iterate (JStr s) = Inr (map (\<lambda>c. JStr [c]) s)"
| "iterate JNull = Inl TypeError"
| "iterate (JBool b) = Inl TypeError"
| "iterate (JNum n) = Inl TypeError"

text \<open>
  \<^verbatim>\<open>x[key]\<close> with a string key: a dict without the key raises KeyError, and everything
  that is not a dict raises TypeError (a list or a string wants an integer index, the rest
  is not subscriptable).
\<close>

fun subscript :: "json \<Rightarrow> string \<Rightarrow> error + json" where
  "subscript (JObj kvs) key = (case map_of kvs key of None \<Rightarrow> Inl KeyError | Some v \<Rightarrow> Inr v)"
| "subscript JNull key = Inl TypeError"
| "subscript (JBool b) key = Inl TypeError"
| "subscript (JNum n) key = Inl TypeError"
| "subscript (JStr s) key = Inl TypeError"
| "subscript (JArr xs) key = Inl TypeError"

text \<open>An exception leaves the enclosing function at once: the rest is not run.\<close>

fun and_then :: "error + 'a \<Rightarrow> ('a \<Rightarrow> error + 'b) \<Rightarrow> error + 'b" where
  "and_then (Inl e) f = Inl e"
| "and_then (Inr x) f = f x"

text \<open>
  \<^verbatim>\<open>d[k] += 1\<close> on a \<^verbatim>\<open>defaultdict(int)\<close>, and one step of \<^verbatim>\<open>Counter(...)\<close>: a key
  already present keeps its slot, a new key enters at the end with count 1.
\<close>

fun incr :: "('k \<times> int) list \<Rightarrow> 'k \<Rightarrow> ('k \<times> int) list" where
  "incr [] k = [(k, 1)]"
| "incr ((k', n) # d) k = (if k' = k then (k', n + 1) # d else (k', n) # incr d k)"

text \<open>\<^verbatim>\<open>sum(d.values())\<close>.\<close>

definition sum_values :: "('k \<times> int) list \<Rightarrow> int" where
  "sum_values d = sum_list (map snd d)"

section \<open>repo\_stats.py: RepoAnalyzer\<close>

record analyzer =
  repo :: string
  days :: int

subsection \<open>get\_commits\<close>

text \<open>
  The console output of \<open>get_commits\<close>: the status line and the provider's message.
\<close>

datatype line = ErrorFetchingCommits int | Message json

text \<open>
  What a call of \<open>get_commits\<close> leaves behind: the list it returns, the page indices it
  asked for in the order of the requests, and the lines it printed.
\<close>

record fetched =
  commits :: "json list"
  requested :: "nat list"
  printed :: "line list"

text \<open>
  The provider is the function from the page index of a request to its response (the
  \<open>since\<close> and \<open>per_page\<close> parameters are the same in every request of a run). The
  \<^verbatim>\<open>while True\<close> loop returns only through a \<^verbatim>\<open>break\<close>, so against a provider whose
  pages never run short it does not return: that is the value \<open>None\<close>.
  On a status other than 200 the message is read with \<^verbatim>\<open>response.json().get(...)\<close>, which
  only a dict has.
\<close>

partial_function (option) get_commits_loop ::
  "(nat \<Rightarrow> response) \<Rightarrow> nat \<Rightarrow> json list \<Rightarrow> nat list \<Rightarrow> (error + fetched) option" where
  "get_commits_loop get page all_commits reqs =
     (let response = get page; reqs' = reqs @ [page] in
      if status_code response \<noteq> 200 then
        (case body response of
           JObj kvs \<Rightarrow>
             Some (Inr \<lparr>commits = all_commits, requested = reqs',
                        printed = [ErrorFetchingCommits (status_code response),
                                   Message (case map_of kvs ''message'' of
                                              None \<Rightarrow> JStr ''Unknown error''
                                            | Some m \<Rightarrow> m)]\<rparr>)
         | _ \<Rightarrow> Some (Inl AttributeError))
      else if \<not> truthy (body response) then
        Some (Inr \<lparr>commits = all_commits, requested = reqs', printed = []\<rparr>)
      else
        (case iterate (body response) of
           Inl e \<Rightarrow> Some (Inl e)
         | Inr items \<Rightarrow>
             if length items < 100 then
               Some (Inr \<lparr>commits = all_commits @ items, requested = reqs', printed = []\<rparr>)
             else get_commits_loop get (page + 1) (all_commits @ items) reqs'))"

definition get_commits :: "(nat \<Rightarrow> response) \<Rightarrow> (error + fetched) option" where
  "get_commits get = get_commits_loop get 1 [] []"

subsection \<open>get\_file\_types\<close>

text \<open>
  \<^verbatim>\<open>str.rfind\<close> of a single character: the index of its last occurrence, or \<open>-1\<close>.
\<close>

fun rfind :: "char \<Rightarrow> string \<Rightarrow> int" where
  "rfind c [] = - 1"
| "rfind c (x # xs) =
     (let r = rfind c xs in if 0 \<le> r then r + 1 else if x = c then 0 else - 1)"

text \<open>
  \<^verbatim>\<open>os.path.splitext\<close> (posixpath): the extension starts at the last dot, if that dot
  comes after the last slash and some character between the two is not a dot (leading dots
  of the file name belong to the root); otherwise the extension is empty.
\<close>

definition splitext :: "string \<Rightarrow> string \<times> string" where
  "splitext p =
     (let sepIndex = rfind CHR ''/'' p; dotIndex = rfind CHR ''.'' p in
      if dotIndex > sepIndex \<and>
         list_ex (\<lambda>c. c \<noteq> CHR ''.'')
           (take (nat (dotIndex - (sepIndex + 1))) (drop (nat (sepIndex + 1)) p))
      then (take (nat dotIndex) p, drop (nat dotIndex) p)
      else (p, []))"

text \<open>
  \<^verbatim>\<open>os.path.splitext(f)[1][1:].lower() or "no_extension"\<close>: the extension token of a path.
  \<^verbatim>\<open>str.lower\<close> is Python's lower-casing of Unicode text, a function of the language and
  not of this repository: it is the parameter \<open>str_lower\<close> of everything that counts file
  types, and what is proved of them holds for every function in its place, or for every
  function with the property of \<^verbatim>\<open>str.lower\<close> that the statement names.
\<close>

definition extension :: "(string \<Rightarrow> string) \<Rightarrow> string \<Rightarrow> string" where
  "extension str_lower f =
     (let e = str_lower (drop 1 (snd (splitext f))) in if e = [] then ''no_extension'' else e)"

text \<open>
  \<^verbatim>\<open>[item["path"] for item in tree if item["type"] == "blob"]\<close>: the type of every
  item is read, the path only of a blob.
\<close>

fun blob_paths :: "json list \<Rightarrow> error + json list" where
  "blob_paths [] = Inr []"
| "blob_paths (item # items) =
     and_then (subscript item ''type'') (\<lambda>t.
       if t = JStr ''blob''
       then and_then (subscript item ''path'') (\<lambda>p.
              and_then (blob_paths items) (\<lambda>ps. Inr (p # ps)))
       else blob_paths items)"

text \<open>The second comprehension: \<open>splitext\<close> takes a string and nothing else.\<close>

fun extensions :: "(string \<Rightarrow> string) \<Rightarrow> json list \<Rightarrow> error + string list" where
  "extensions str_lower [] = Inr []"
| "extensions str_lower (f # files) =
     (case f of
        JStr p \<Rightarrow> and_then (extensions str_lower files) (\<lambda>es. Inr (extension str_lower p # es))
      | _ \<Rightarrow> Inl TypeError)"

text \<open>\<^verbatim>\<open>Counter(xs)\<close>: counts in the order of first occurrence.\<close>

definition counter :: "'k list \<Rightarrow> ('k \<times> int) list" where
  "counter xs = foldl incr [] xs"

text \<open>
  The status line of a failed request goes to the console and is no part of the result.
  \<^verbatim>\<open>data.get("tree", [])\<close> needs a dict.
\<close>

definition get_file_types ::
  "(string \<Rightarrow> string) \<Rightarrow> response \<Rightarrow> error + (string \<times> int) list" where
  "get_file_types str_lower response =
     (if status_code response \<noteq> 200 then Inr (counter [])
      else
        (case body response of
           JObj kvs \<Rightarrow>
             and_then (iterate (case map_of kvs ''tree'' of None \<Rightarrow> JArr [] | Some t \<Rightarrow> t)) (\<lambda>tree.
               and_then (blob_paths tree) (\<lambda>files.
                 and_then (extensions str_lower files) (\<lambda>es. Inr (counter es))))
         | _ \<Rightarrow> Inl AttributeError))"

subsection \<open>get\_contributors\<close>

definition get_contributors :: "response \<Rightarrow> json" where
  "get_contributors response =
     (if status_code response \<noteq> 200 then JArr [] else body response)"

subsection \<open>generate\_report\<close>

text \<open>
  \<^verbatim>\<open>commit["commit"]["author"]["date"][:10]\<close> as the key of \<open>commit_dates\<close>. A string is
  cut to its first ten characters. A list can be sliced but is no dict key, and nothing else
  can be sliced, so every other date is a TypeError (a dict as the date raises KeyError
  instead from Python 3.12 on, where a slice is hashable; it is filed under TypeError here).
\<close>

definition commit_date :: "json \<Rightarrow> error + string" where
  "commit_date commit =
     and_then (subscript commit ''commit'') (\<lambda>c.
       and_then (subscript c ''author'') (\<lambda>a.
         and_then (subscript a ''date'') (\<lambda>d.
           case d of JStr s \<Rightarrow> Inr (take 10 s) | _ \<Rightarrow> Inl TypeError)))"

text \<open>
  \<^verbatim>\<open>commit["commit"]["author"]["name"]\<close> as the key of \<open>authors\<close>. Lists and dicts are
  not hashable. Python's \<open>True\<close> and \<open>1\<close> (and \<open>False\<close> and \<open>0\<close>) are one key, so a
  Boolean is filed under its number.
\<close>

fun dict_key :: "json \<Rightarrow> error + json" where
  "dict_key (JArr xs) = Inl TypeError"
| "dict_key (JObj kvs) = Inl TypeError"
| "dict_key (JBool b) = Inr (JNum (if b then 1 else 0))"
| "dict_key JNull = Inr JNull"
| "dict_key (JNum n) = Inr (JNum n)"
| "dict_key (JStr s) = Inr (JStr s)"

definition commit_author :: "json \<Rightarrow> error + json" where
  "commit_author commit =
     and_then (subscript commit ''commit'') (\<lambda>c.
       and_then (subscript c ''author'') (\<lambda>a.
         and_then (subscript a ''name'') dict_key))"

text \<open>The loop over the commits, with its two counters.\<close>

fun aggregate ::
  "json list \<Rightarrow> (string \<times> int) list \<Rightarrow> (json \<times> int) list \<Rightarrow>
   error + (string \<times> int) list \<times> (json \<times> int) list" where
  "aggregate [] commit_dates authors = Inr (commit_dates, authors)"
| "aggregate (commit # rest) commit_dates authors =
     and_then (commit_date commit) (\<lambda>date.
       and_then (commit_author commit) (\<lambda>author.
         aggregate rest (incr commit_dates date) (incr authors author)))"

record ('l, 'c) contributor =
  login :: 'l
  contributions :: 'c

text \<open>
  The Statistics Report. \<open>generate_report\<close> fills it with what the provider sent (author
  keys and contributor fields are JSON values); the visualizer reads it back from its JSON
  file, where an author is a string and a contribution count an integer.
\<close>

record ('a, 'l, 'c) report =
  repository :: string
  analysis_period_days :: int
  total_commits :: int
  commit_frequency :: "(string \<times> int) list"
  authors :: "('a \<times> int) list"
  file_types :: "(string \<times> int) list"
  contributors :: "('l, 'c) contributor list"

text \<open>
  \<^verbatim>\<open>contributors[:10]\<close> and the comprehension over it: only a list or a string can be
  sliced, and the items of a string have no fields.
\<close>

fun top_entries :: "json list \<Rightarrow> error + (json, json) contributor list" where
  "top_entries [] = Inr []"
| "top_entries (c # cs) =
     and_then (subscript c ''login'') (\<lambda>l.
       and_then (subscript c ''contributions'') (\<lambda>n.
         and_then (top_entries cs) (\<lambda>es. Inr (\<lparr>login = l, contributions = n\<rparr> # es))))"

definition report_contributors :: "json \<Rightarrow> error + (json, json) contributor list" where
  "report_contributors cs =
     (case cs of
        JArr xs \<Rightarrow> top_entries (take 10 xs)
      | JStr s \<Rightarrow> top_entries (map (\<lambda>c. JStr [c]) (take 10 s))
      | _ \<Rightarrow> Inl TypeError)"

text \<open>
  \<open>generate_report\<close> from the list that \<open>get_commits\<close> returned on: the two counters,
  then the file types, then the contributors, then the report.
\<close>

definition report_of ::
  "(string \<Rightarrow> string) \<Rightarrow> analyzer \<Rightarrow> json list \<Rightarrow> response \<Rightarrow> response \<Rightarrow>
   error + (json, json, json) report" where
  "report_of str_lower self cs tree_response contributors_response =
     and_then (aggregate cs [] []) (\<lambda>(commit_dates, authors).
       and_then (get_file_types str_lower tree_response) (\<lambda>file_types.
         and_then (report_contributors (get_contributors contributors_response)) (\<lambda>top.
           Inr \<lparr>repository = repo self,
                analysis_period_days = days self,
                total_commits = int (length cs),
                commit_frequency = commit_dates,
                authors = authors,
                file_types = file_types,
                contributors = top\<rparr>)))"

definition generate_report ::
  "(string \<Rightarrow> string) \<Rightarrow> analyzer \<Rightarrow> (nat \<Rightarrow> response) \<Rightarrow> response \<Rightarrow> response \<Rightarrow>
   (error + (json, json, json) report) option" where
  "generate_report str_lower self get tree_response contributors_response =
     (case get_commits get of
        None \<Rightarrow> None
      | Some (Inl e) \<Rightarrow> Some (Inl e)
      | Some (Inr f) \<Rightarrow>
          Some (report_of str_lower self (commits f) tree_response contributors_response))"

section \<open>stats\_visualizer.py: StatsVisualizer\<close>

text \<open>
  The visualizer's \<open>self.stats\<close>: the report as read back from its JSON file. Every
  chart method is a function from the stats to the arrays it hands to the plotting backend
  (labels and values) and the stats it leaves behind in \<open>self.stats\<close>.
\<close>

type_synonym stats = "(string, string, int) report"

type_synonym chart = "string list \<times> int list"

subsection \<open>generate\_commit\_frequency\_chart\<close>

text \<open>\<^verbatim>\<open>sorted(zip(dates, counts), key=lambda x: x[0])\<close>: a new list; Python's sort is stable.\<close>

definition generate_commit_frequency_chart :: "stats \<Rightarrow> chart \<times> stats" where
  "generate_commit_frequency_chart self =
     (let date_count_pairs = sort_key fst (commit_frequency self)
      in ((map fst date_count_pairs, map snd date_count_pairs), self))"

subsection \<open>generate\_file\_types\_chart\<close>

text \<open>
  \<^verbatim>\<open>threshold = total_files * 0.02\<close> is a product of binary64 floats, rounded to the
  nearest float with 53 significant bits, ties to even. \<open>round53\<close> is that rounding on the
  integers; \<open>0.02\<close> is the float \<open>5764607523034235 / 2^58\<close>, so the threshold is kept as its
  numerator over \<open>2^58\<close>. Converting an integer to a float rounds in the same way and
  raises OverflowError when the result is no finite float.
\<close>

fun bit_length :: "nat \<Rightarrow> nat" where
  "bit_length n = (if n = 0 then 0 else Suc (bit_length (n div 2)))"

declare bit_length.simps [simp del]

definition round53 :: "int \<Rightarrow> int" where
  "round53 n =
     (let a = \<bar>n\<bar>; l = bit_length (nat a) in
      if l \<le> 53 then n
      else
        (let s = l - 53; q = a div 2 ^ s; r = a mod 2 ^ s; h = 2 ^ (s - 1);
             m = (if h < r \<or> (r = h \<and> odd q) then q + 1 else q)
         in sgn n * (m * 2 ^ s)))"

definition float_of_int :: "int \<Rightarrow> error + int" where
  "float_of_int n = (if 2 ^ 1024 \<le> \<bar>round53 n\<bar> then Inl OverflowError else Inr (round53 n))"

definition two_percent :: int where
  "two_percent = 5764607523034235"

definition threshold :: "int \<Rightarrow> error + int" where
  "threshold total_files =
     and_then (float_of_int total_files) (\<lambda>t. Inr (round53 (t * two_percent)))"

text \<open>\<^verbatim>\<open>count >= threshold\<close>: Python compares an integer with a float exactly.\<close>

definition at_least :: "int \<Rightarrow> int \<Rightarrow> bool" where
  "at_least cnt thr = (thr \<le> cnt * 2 ^ 58)"

text \<open>\<^verbatim>\<open>d[k] = v\<close>: a key already present keeps its slot.\<close>

fun assign :: "('k \<times> 'v) list \<Rightarrow> 'k \<Rightarrow> 'v \<Rightarrow> ('k \<times> 'v) list" where
  "assign [] k v = [(k, v)]"
| "assign ((k', v') # d) k v = (if k' = k then (k', v) # d else (k', v') # assign d k v)"

text \<open>The loop over \<^verbatim>\<open>file_types.items()\<close>, with \<open>grouped_types\<close> and \<open>other_count\<close>.\<close>

fun group_small ::
  "(string \<times> int) list \<Rightarrow> int \<Rightarrow> (string \<times> int) list \<Rightarrow> int \<Rightarrow> (string \<times> int) list \<times> int" where
  "group_small [] thr grouped_types other_count = (grouped_types, other_count)"
| "group_small ((ftype, cnt) # rest) thr grouped_types other_count =
     (if at_least cnt thr
      then group_small rest thr (assign grouped_types ftype cnt) other_count
      else group_small rest thr grouped_types (other_count + cnt))"

definition grouped_file_types :: "(string \<times> int) list \<Rightarrow> error + (string \<times> int) list" where
  "grouped_file_types ftypes =
     and_then (threshold (sum_values ftypes)) (\<lambda>thr.
       case group_small ftypes thr [] 0 of
         (grouped_types, other_count) \<Rightarrow>
           Inr (if 0 < other_count then assign grouped_types ''Other'' other_count
                else grouped_types))"

definition generate_file_types_chart :: "stats \<Rightarrow> error + chart \<times> stats" where
  "generate_file_types_chart self =
     and_then (grouped_file_types (file_types self)) (\<lambda>grouped_types.
       Inr ((map fst grouped_types, map snd grouped_types), self))"

subsection \<open>generate\_contributors\_chart\<close>

text \<open>
  \<^verbatim>\<open>xs.sort(key=k, reverse=True)\<close> and \<^verbatim>\<open>sorted(xs, key=k, reverse=True)\<close>: descending
  by key, and stable, so items with equal keys keep the order they had.
\<close>

definition sort_descending :: "('a \<Rightarrow> int) \<Rightarrow> 'a list \<Rightarrow> 'a list" where
  "sort_descending k xs = sort_key (\<lambda>x. - k x) xs"

text \<open>
  \<open>contributors\<close> is the very list held in \<open>self.stats\<close>, and \<^verbatim>\<open>contributors.sort(...)\<close>
  sorts it in place.
\<close>

definition generate_contributors_chart :: "stats \<Rightarrow> chart \<times> stats" where
  "generate_contributors_chart self =
     (let sorted_contributors = sort_descending contributions (contributors self);
          top_contributors = take 10 sorted_contributors
      in ((map login top_contributors, map contributions top_contributors),
          self\<lparr>contributors := sorted_contributors\<rparr>))"

subsection \<open>generate\_authors\_activity\_chart\<close>

definition generate_authors_activity_chart :: "stats \<Rightarrow> chart \<times> stats" where
  "generate_authors_activity_chart self =
     (let sorted_authors = sort_descending snd (authors self);
          top_authors = take 8 sorted_authors
      in ((map fst top_authors, map snd top_authors), self))"

section \<open>Commit records\<close>

text \<open>
  The field of a payload along a path of keys, read as the analyzer reads it, and what it
  means for a commit record to contain a field.
\<close>

fun field :: "json \<Rightarrow> string list \<Rightarrow> error + json" where
  "field v [] = Inr v"
| "field v (k # ks) = and_then (subscript v k) (\<lambda>v'. field v' ks)"

definition has_field :: "json \<Rightarrow> string list \<Rightarrow> bool" where
  "has_field v path = (\<not> isl (field v path))"

fun is_string :: "json \<Rightarrow> bool" where
  "is_string (JStr s) = True"
| "is_string JNull = False"
| "is_string (JBool b) = False"
| "is_string (JNum n) = False"
| "is_string (JArr xs) = False"
| "is_string (JObj kvs) = False"

text \<open>
  The day of a commit (the first ten characters of its date) and its author, as the fields
  of the record say.
\<close>

definition day_of :: "json \<Rightarrow> string" where
  "day_of c =
     (case field c [''commit'', ''author'', ''date''] of Inr (JStr s) \<Rightarrow> take 10 s | _ \<Rightarrow> [])"

definition author_of :: "json \<Rightarrow> json" where
  "author_of c =
     (case field c [''commit'', ''author'', ''name''] of Inr v \<Rightarrow> v | Inl e \<Rightarrow> JNull)"

text \<open>The number of the commits of a list with a given day, or a given author.\<close>

definition tally :: "(json \<Rightarrow> 'k) \<Rightarrow> json list \<Rightarrow> 'k \<Rightarrow> int" where
  "tally key cs k = int (length (filter (\<lambda>c. key c = k) cs))"

text \<open>A record that carries its date and its author name, both strings.\<close>

definition string_field :: "json \<Rightarrow> string list \<Rightarrow> bool" where
  "string_field v path = (case field v path of Inl e \<Rightarrow> False | Inr x \<Rightarrow> is_string x)"

definition well_formed :: "json \<Rightarrow> bool" where
  "well_formed c =
     (string_field c [''commit'', ''author'', ''date''] \<and>
      string_field c [''commit'', ''author'', ''name''])"





section \<open>File entries\<close>

text \<open>
  The text after and before the last occurrence of a character (all of the text, and none
  of it, when the character does not occur), and the final component of a path.
\<close>

definition after_last :: "char \<Rightarrow> string \<Rightarrow> string" where
  "after_last c s = rev (takeWhile (\<lambda>x. x \<noteq> c) (rev s))"

definition before_last :: "char \<Rightarrow> string \<Rightarrow> string" where
  "before_last c s = rev (drop 1 (dropWhile (\<lambda>x. x \<noteq> c) (rev s)))"

definition final_component :: "string \<Rightarrow> string" where
  "final_component p = after_last CHR ''/'' p"

text \<open>
  The extension as the specification words it: the lower-cased text after the last dot of
  the final component, and \<open>no_extension\<close> when the component has no dot.
\<close>

definition claimed_extension :: "(string \<Rightarrow> string) \<Rightarrow> string \<Rightarrow> string" where
  "claimed_extension str_lower p =
     (let name = final_component p in
      if CHR ''.'' \<in> set name then str_lower (after_last CHR ''.'' name) else ''no_extension'')"

text \<open>
  A tree entry the comprehension can read: it has a type, and a blob has a string path.
\<close>

definition is_blob :: "json \<Rightarrow> bool" where
  "is_blob item = (subscript item ''type'' = Inr (JStr ''blob''))"

definition entry_path :: "json \<Rightarrow> string" where
  "entry_path item = (case subscript item ''path'' of Inr (JStr p) \<Rightarrow> p | _ \<Rightarrow> [])"

definition tree_entry_ok :: "json \<Rightarrow> bool" where
  "tree_entry_ok item =
     (has_field item [''type''] \<and> (is_blob item \<longrightarrow> string_field item [''path'']))"

section \<open>Rankings\<close>

text \<open>A list in descending order of a key.\<close>

definition descending :: "('a \<Rightarrow> int) \<Rightarrow> 'a list \<Rightarrow> bool" where
  "descending k xs = sorted_wrt (\<lambda>a b. k b \<le> k a) xs"

section \<open>Shares\<close>

text \<open>
  The categories whose count is at least 2 percent of the total, in the order of the
  report, and the sum of the counts of the others, in exact arithmetic.
\<close>

definition kept :: "(string \<times> int) list \<Rightarrow> (string \<times> int) list" where
  "kept ftypes = filter (\<lambda>(ftype, n). 2 * sum_values ftypes \<le> 100 * n) ftypes"

definition merged_count :: "(string \<times> int) list \<Rightarrow> int" where
  "merged_count ftypes =
     sum_values (filter (\<lambda>(ftype, n). 100 * n < 2 * sum_values ftypes) ftypes)"

section \<open>Fixtures\<close>

text \<open>Pages of numbered items, and the three-page provider with 100, 100 and 37 items.\<close>

definition numbered :: "nat \<Rightarrow> nat \<Rightarrow> json list" where
  "numbered first n = map (\<lambda>i. JNum (int i)) [first..<first + n]"

definition ok_page :: "json list \<Rightarrow> response" where
  "ok_page xs = \<lparr>status_code = 200, body = JArr xs\<rparr>"

definition three_pages :: "nat \<Rightarrow> response" where
  "three_pages p =
     (if p = 1 then ok_page (numbered 0 100)
      else if p = 2 then ok_page (numbered 100 100)
      else ok_page (numbered 200 37))"

text \<open>A provider whose second page is refused.\<close>

definition rate_limited :: response where
  "rate_limited =
     \<lparr>status_code = 403, body = JObj [(''message'', JStr ''API rate limit exceeded'')]\<rparr>"

definition failing_second_page :: "nat \<Rightarrow> response" where
  "failing_second_page p = (if p = 1 then ok_page (numbered 0 100) else rate_limited)"

text \<open>A provider whose second page is refused with a body that is no JSON object.\<close>

definition bad_gateway :: response where
  "bad_gateway = \<lparr>status_code = 502, body = JNull\<rparr>"

definition failing_without_document :: "nat \<Rightarrow> response" where
  "failing_without_document p = (if p = 1 then ok_page (numbered 0 100) else bad_gateway)"

text \<open>
  What \<^verbatim>\<open>str.lower\<close> does on ASCII text, where only the letters A to Z change: the lower-casing
  of the examples, whose paths are ASCII.
\<close>

definition ascii_lower_char :: "char \<Rightarrow> char" where
  "ascii_lower_char c =
     (case map_of (zip ''ABCDEFGHIJKLMNOPQRSTUVWXYZ'' ''abcdefghijklmnopqrstuvwxyz'') c of
        None \<Rightarrow> c
      | Some l \<Rightarrow> l)"

definition ascii_lower :: "string \<Rightarrow> string" where
  "ascii_lower s = map ascii_lower_char s"

text \<open>
  Commit records as the provider sends them, one without an author name, and one whose
  author is \<open>null\<close>.
\<close>

definition commit_record :: "string \<Rightarrow> string \<Rightarrow> json" where
  "commit_record date name =
     JObj [(''sha'', JStr ''0000000''),
           (''commit'', JObj [(''author'', JObj [(''name'', JStr name), (''date'', JStr date)]),
                              (''message'', JStr ''work'')])]"



text \<open>A contributor list whose only entry has no fields.\<close>

definition anonymous_contributors :: response where
  "anonymous_contributors = \<lparr>status_code = 200, body = JArr [JObj []]\<rparr>"

definition not_found :: response where
  "not_found = \<lparr>status_code = 404, body = JObj [(''message'', JStr ''Not Found'')]\<rparr>"

definition demo_analyzer :: analyzer where
  "demo_analyzer = \<lparr>repo = ''octocat/hello'', days = 30\<rparr>"

definition demo_commits :: "json list" where
  "demo_commits =
     [commit_record ''2024-01-03T10:00:00Z'' ''ann'',
      commit_record ''2024-01-01T09:30:00Z'' ''bob'',
      commit_record ''2024-01-03T17:45:00Z'' ''bob'']"

definition demo_provider :: "nat \<Rightarrow> response" where
  "demo_provider p = ok_page demo_commits"

definition demo_report :: "(json, json, json) report" where
  "demo_report =
     \<lparr>repository = ''octocat/hello'', analysis_period_days = 30, total_commits = 3,
      commit_frequency = [(''2024-01-03'', 2), (''2024-01-01'', 1)],
      authors = [(JStr ''ann'', 1), (JStr ''bob'', 2)],
      file_types = [], contributors = []\<rparr>"

definition reordered_commits :: "json list" where
  "reordered_commits =
     [commit_record ''2024-01-03T17:45:00Z'' ''bob'',
      commit_record ''2024-01-03T10:00:00Z'' ''ann'',
      commit_record ''2024-01-01T09:30:00Z'' ''bob'']"


text \<open>A tree of four files and two directories.\<close>

definition tree_entry :: "string \<Rightarrow> string \<Rightarrow> json" where
  "tree_entry ty path = JObj [(''path'', JStr path), (''mode'', JStr ''100644''), (''type'', JStr ty)]"

definition demo_tree :: response where
  "demo_tree =
     \<lparr>status_code = 200,
      body = JObj [(''sha'', JStr ''9fb037999f264ba9a7fc6274d15fa3ae2ab98312''),
                   (''tree'', JArr [tree_entry ''blob'' ''src/main.rs'',
                                    tree_entry ''tree'' ''src'',
                                    tree_entry ''blob'' ''Makefile'',
                                    tree_entry ''tree'' ''docs.v2'',
                                    tree_entry ''blob'' ''.gitignore'',
                                    tree_entry ''blob'' ''lib/util.RS'']),
                   (''truncated'', JBool False)]\<rparr>"

text \<open>
  A report as the visualizer reads it, and fifteen contributors, two of them with equal
  counts at ranks ten and eleven, in two orders.
\<close>

definition named :: "string \<Rightarrow> int \<Rightarrow> (string, int) contributor" where
  "named l n = \<lparr>login = l, contributions = n\<rparr>"

definition demo_stats :: stats where
  "demo_stats =
     \<lparr>repository = ''octocat/hello'', analysis_period_days = 30, total_commits = 8,
      commit_frequency = [(''2024-01-03'', 2), (''2024-01-01'', 5), (''2024-01-02'', 1)],
      authors = [(''ann'', 3), (''bob'', 5)],
      file_types = [(''a'', 60), (''b'', 30), (''c'', 5), (''d'', 5)],
      contributors = [named ''ann'' 3, named ''bob'' 5]\<rparr>"

definition fifteen :: "(string, int) contributor list" where
  "fifteen =
     [named ''a'' 20, named ''b'' 19, named ''c'' 18, named ''d'' 17, named ''e'' 16,
      named ''f'' 15, named ''g'' 14, named ''h'' 13, named ''i'' 12, named ''j'' 5,
      named ''k'' 5, named ''l'' 4, named ''m'' 3, named ''n'' 2, named ''o'' 1]"

definition fifteen_shuffled :: "(string, int) contributor list" where
  "fifteen_shuffled =
     [named ''o'' 1, named ''k'' 5, named ''c'' 18, named ''d'' 17, named ''e'' 16,
      named ''f'' 15, named ''g'' 14, named ''h'' 13, named ''i'' 12, named ''j'' 5,
      named ''b'' 19, named ''l'' 4, named ''m'' 3, named ''n'' 2, named ''a'' 20]"

section \<open>Counters\<close>

lemma sum_values_incr: "sum_values (incr d k) = sum_values d + 1"
  by (induction d k rule: incr.induct) (simp_all add: sum_values_def)

lemma sum_values_foldl_incr: "sum_values (foldl incr d ks) = sum_values d + int (length ks)"
  by (induction ks arbitrary: d) (simp_all add: sum_values_incr)

lemma map_of_incr:
  "map_of (incr d k) = (map_of d)(k \<mapsto> (case map_of d k of None \<Rightarrow> 1 | Some n \<Rightarrow> n + 1))"
  by (induction d k rule: incr.induct) (auto simp: fun_eq_iff)

lemma keys_incr: "fst ` set (incr d k) = insert k (fst ` set d)"
  by (induction d k rule: incr.induct) auto

lemma distinct_incr: "distinct (map fst d) \<Longrightarrow> distinct (map fst (incr d k))"
  by (induction d k rule: incr.induct) (auto simp: keys_incr)

lemma map_of_foldl_incr:
  "map_of (foldl incr d ks) k =
     (if k \<in> set ks
      then Some ((case map_of d k of None \<Rightarrow> 0 | Some n \<Rightarrow> n) + int (count (mset ks) k))
      else map_of d k)"
  by (induction ks arbitrary: d) (auto simp: map_of_incr split: option.splits)

section \<open>The paginated fetch\<close>

text \<open>One turn of the loop, by the page it meets.\<close>

lemma loop_full_page:
  assumes "status_code (get p) = 200" "body (get p) = JArr xs" "100 \<le> length xs"
  shows "get_commits_loop get p acc reqs = get_commits_loop get (p + 1) (acc @ xs) (reqs @ [p])"
proof -
  from assms(3) have "xs \<noteq> []" by auto
  with assms show ?thesis
    by (subst get_commits_loop.simps) (simp add: Let_def)
qed

lemma loop_short_page:
  assumes "status_code (get p) = 200" "body (get p) = JArr xs" "length xs < 100"
  shows "get_commits_loop get p acc reqs =
           Some (Inr \<lparr>commits = acc @ xs, requested = reqs @ [p], printed = []\<rparr>)"
  using assms by (subst get_commits_loop.simps) (simp add: Let_def)

lemma loop_failed_page:
  assumes "status_code (get p) \<noteq> 200" "body (get p) = JObj kvs"
  shows "get_commits_loop get p acc reqs =
           Some (Inr \<lparr>commits = acc, requested = reqs @ [p],
                      printed = [ErrorFetchingCommits (status_code (get p)),
                                 Message (case map_of kvs ''message'' of
                                            None \<Rightarrow> JStr ''Unknown error'' | Some m \<Rightarrow> m)]\<rparr>)"
  using assms by (subst get_commits_loop.simps) (simp add: Let_def)

text \<open>
  The message is read from the body with \<^verbatim>\<open>.get\<close>: a body that is no dict has none, and
  the attempt to print it ends the fetch with an exception.
\<close>

lemma loop_failed_page_without_document:
  assumes "status_code (get p) \<noteq> 200" "\<forall>kvs. body (get p) \<noteq> JObj kvs"
  shows "get_commits_loop get p acc reqs = Some (Inl AttributeError)"
  using assms by (subst get_commits_loop.simps) (simp add: Let_def split: json.splits)

text \<open>A run of full pages takes the loop from page \<open>p\<close> to page \<open>k\<close>.\<close>

lemma loop_full_pages:
  assumes "p \<le> k"
    and "\<forall>q. p \<le> q \<and> q < k \<longrightarrow>
           status_code (get q) = 200 \<and> body (get q) = JArr (items q) \<and> 100 \<le> length (items q)"
  shows "get_commits_loop get p acc reqs =
           get_commits_loop get k (acc @ concat (map items [p..<k])) (reqs @ [p..<k])"
  using assms
proof (induction k rule: dec_induct)
  case base
  show ?case by simp
next
  case (step n)
  then have "get_commits_loop get p acc reqs =
      get_commits_loop get n (acc @ concat (map items [p..<n])) (reqs @ [p..<n])"
    by simp
  also have "\<dots> = get_commits_loop get (n + 1)
      ((acc @ concat (map items [p..<n])) @ items n) ((reqs @ [p..<n]) @ [n])"
    using step.hyps step.prems by (intro loop_full_page) auto
  finally show ?case using step.hyps by simp
qed

lemma length_numbered: "length (numbered first n) = n"
  by (simp add: numbered_def)

text \<open>
  C2. When pages \<open>1, \<dots>, k - 1\<close> answer 200 with a full array (100 items or more) and
  page \<open>k\<close> answers 200 with an array of fewer than 100 items (empty or not), \<open>get_commits\<close>
  returns the concatenation of the arrays of pages \<open>1, \<dots>, k\<close> in order, after requesting
  exactly the pages \<open>1, \<dots>, k\<close> in strictly increasing order, each once, and printing nothing.
  The fixture of 100, 100 and 37 items is the instance \<open>k = 3\<close>, proved next.
\<close>

theorem get_commits_concatenates_pages:
  assumes "1 \<le> k"
    and "\<forall>p. 1 \<le> p \<and> p < k \<longrightarrow>
           status_code (get p) = 200 \<and> body (get p) = JArr (items p) \<and> 100 \<le> length (items p)"
    and "status_code (get k) = 200" and "body (get k) = JArr (items k)"
    and "length (items k) < 100"
  shows "get_commits get =
           Some (Inr \<lparr>commits = concat (map items [1..<Suc k]),
                      requested = [1..<Suc k], printed = []\<rparr>)
         \<and> sorted_wrt (<) [1..<Suc k] \<and> length [1..<Suc k] = k"
proof -
  have "get_commits get = get_commits_loop get k (concat (map items [1..<k])) [1..<k]"
    unfolding get_commits_def using loop_full_pages [OF assms(1,2), of "[]" "[]"] by simp
  also have "\<dots> = Some (Inr \<lparr>commits = concat (map items [1..<k]) @ items k,
                               requested = [1..<k] @ [k], printed = []\<rparr>)"
    using assms(3-5) by (rule loop_short_page)
  finally have "get_commits get =
      Some (Inr \<lparr>commits = concat (map items [1..<Suc k]),
                 requested = [1..<Suc k], printed = []\<rparr>)"
    using assms(1) by simp
  moreover have "sorted_wrt (<) [1..<Suc k]"
    by (rule sorted_wrt_upt)
  moreover have "length [1..<Suc k] = k"
    by simp
  ultimately show ?thesis by blast
qed

text \<open>
  The three-page fixture: 237 items, the pages in order, after the requests 1, 2 and 3.
\<close>

theorem get_commits_three_page_fixture:
  "get_commits three_pages =
     Some (Inr \<lparr>commits = numbered 0 100 @ numbered 100 100 @ numbered 200 37,
                requested = [1, 2, 3], printed = []\<rparr>)
   \<and> length (numbered 0 100 @ numbered 100 100 @ numbered 200 37) = 237"
proof -
  define items where "items = (\<lambda>p::nat. if p = 1 then numbered 0 100
     else if p = 2 then numbered 100 100 else numbered 200 37)"
  have pages: "three_pages p = \<lparr>status_code = 200, body = JArr (items p)\<rparr>" for p
    by (simp add: three_pages_def items_def ok_page_def)
  have full: "\<forall>p. 1 \<le> p \<and> p < 3 \<longrightarrow> status_code (three_pages p) = 200 \<and>
      body (three_pages p) = JArr (items p) \<and> 100 \<le> length (items p)"
    by (auto simp: pages items_def length_numbered)
  have upt: "[1..<Suc 3] = [1, 2, 3]"
    by code_simp
  have "length (items 3) < 100"
    by (simp add: items_def length_numbered)
  from get_commits_concatenates_pages [of 3 three_pages items, OF _ full _ _ this, unfolded upt]
  show ?thesis
    by (simp add: pages items_def length_numbered)
qed

text \<open>
  C7. After full pages \<open>1, \<dots>, k - 1\<close>, a page \<open>k\<close> that answers with a status other than
  200 ends the fetch, and how it ends depends on the body of that answer. When the body is
  a JSON object, \<open>get_commits\<close> returns exactly the concatenation of the arrays of pages
  \<open>1, \<dots>, k - 1\<close>; page \<open>k\<close> has been requested once and no page after it; the status and
  the provider's message (or \<open>Unknown error\<close>) are printed and are no part of the list.
  When the body is anything else, reading the message raises an AttributeError, and the
  pages gathered so far are not returned.
\<close>

theorem get_commits_on_failing_page:
  assumes "1 \<le> k"
    and "\<forall>p. 1 \<le> p \<and> p < k \<longrightarrow>
           status_code (get p) = 200 \<and> body (get p) = JArr (items p) \<and> 100 \<le> length (items p)"
    and "status_code (get k) \<noteq> 200"
  shows "get_commits get =
           (case body (get k) of
              JObj kvs \<Rightarrow>
                Some (Inr \<lparr>commits = concat (map items [1..<k]),
                           requested = [1..<Suc k],
                           printed = [ErrorFetchingCommits (status_code (get k)),
                                      Message (case map_of kvs ''message'' of
                                                 None \<Rightarrow> JStr ''Unknown error''
                                               | Some m \<Rightarrow> m)]\<rparr>)
            | _ \<Rightarrow> Some (Inl AttributeError))"
proof -
  have start: "get_commits get = get_commits_loop get k (concat (map items [1..<k])) [1..<k]"
    unfolding get_commits_def using loop_full_pages [OF assms(1,2), of "[]" "[]"] by simp
  have upt: "[1..<k] @ [k] = [1..<Suc k]"
    using assms(1) by simp
  show ?thesis
  proof (cases "\<exists>kvs. body (get k) = JObj kvs")
    case True
    then obtain kvs where kvs: "body (get k) = JObj kvs" ..
    have "get_commits_loop get k (concat (map items [1..<k])) [1..<k] =
        Some (Inr \<lparr>commits = concat (map items [1..<k]),
                   requested = [1..<k] @ [k],
                   printed = [ErrorFetchingCommits (status_code (get k)),
                              Message (case map_of kvs ''message'' of
                                         None \<Rightarrow> JStr ''Unknown error'' | Some m \<Rightarrow> m)]\<rparr>)"
      using assms(3) kvs by (rule loop_failed_page)
    with start show ?thesis
      by (simp only: kvs json.case upt)
  next
    case False
    then have none: "\<forall>kvs. body (get k) \<noteq> JObj kvs"
      by simp
    have "get_commits_loop get k (concat (map items [1..<k])) [1..<k] = Some (Inl AttributeError)"
      using assms(3) none by (rule loop_failed_page_without_document)
    with start none show ?thesis
      by (cases "body (get k)") simp_all
  qed
qed

text \<open>
  A full first page, then a refused second page. With the provider's error document the
  first page is returned; with a body that is \<open>null\<close> the fetch raises, and the first page
  is lost.
\<close>

theorem get_commits_failing_second_page:
  "get_commits failing_second_page =
     Some (Inr \<lparr>commits = numbered 0 100, requested = [1, 2],
                printed = [ErrorFetchingCommits 403, Message (JStr ''API rate limit exceeded'')]\<rparr>) \<and>
   get_commits failing_without_document = Some (Inl AttributeError)"
proof -
  let ?items = "\<lambda>p::nat. numbered 0 100"
  have full: "\<forall>p. 1 \<le> p \<and> p < 2 \<longrightarrow> status_code (failing_second_page p) = 200 \<and>
      body (failing_second_page p) = JArr (?items p) \<and> 100 \<le> length (?items p)"
    by (auto simp: failing_second_page_def ok_page_def length_numbered)
  have full': "\<forall>p. 1 \<le> p \<and> p < 2 \<longrightarrow> status_code (failing_without_document p) = 200 \<and>
      body (failing_without_document p) = JArr (?items p) \<and> 100 \<le> length (?items p)"
    by (auto simp: failing_without_document_def ok_page_def length_numbered)
  have failed: "status_code (failing_second_page 2) \<noteq> 200"
    and failed': "status_code (failing_without_document 2) \<noteq> 200"
    by (simp_all add: failing_second_page_def rate_limited_def failing_without_document_def
          bad_gateway_def)
  have upt: "[1..<Suc 2] = [1, 2]" "[1..<2] = [1::nat]"
    by code_simp+
  from get_commits_on_failing_page [of 2 failing_second_page ?items, OF _ full failed,
      unfolded upt]
  have "get_commits failing_second_page =
     Some (Inr \<lparr>commits = numbered 0 100, requested = [1, 2],
                printed = [ErrorFetchingCommits 403, Message (JStr ''API rate limit exceeded'')]\<rparr>)"
    by (simp add: failing_second_page_def rate_limited_def)
  moreover from get_commits_on_failing_page [of 2 failing_without_document ?items,
      OF _ full' failed', unfolded upt]
  have "get_commits failing_without_document = Some (Inl AttributeError)"
    by (simp add: failing_without_document_def bad_gateway_def)
  ultimately show ?thesis ..
qed

section \<open>Aggregation\<close>

lemma and_then_Inr_iff: "and_then m f = Inr y \<longleftrightarrow> (\<exists>x. m = Inr x \<and> f x = Inr y)"
  by (cases m) simp_all

lemma and_then_assoc: "and_then (and_then m f) g = and_then m (\<lambda>x. and_then (f x) g)"
  by (cases m) simp_all

lemma commit_date_field:
  "commit_date c =
     and_then (field c [''commit'', ''author'', ''date''])
       (\<lambda>d. case d of JStr s \<Rightarrow> Inr (take 10 s) | _ \<Rightarrow> Inl TypeError)"
  by (simp add: commit_date_def and_then_assoc)

lemma commit_author_field:
  "commit_author c = and_then (field c [''commit'', ''author'', ''name'']) dict_key"
  by (simp add: commit_author_def and_then_assoc)



lemma aggregate_Inr_iff:
  "aggregate cs cd au = Inr (cd', au') \<longleftrightarrow>
     (\<forall>c\<in>set cs. \<not> isl (commit_date c) \<and> \<not> isl (commit_author c)) \<and>
     cd' = foldl incr cd (map (\<lambda>c. projr (commit_date c)) cs) \<and>
     au' = foldl incr au (map (\<lambda>c. projr (commit_author c)) cs)"
proof (induction cs arbitrary: cd au)
  case Nil
  show ?case by auto
next
  case (Cons c cs)
  show ?case
  proof (cases "commit_date c")
    case (Inl e)
    then show ?thesis by simp
  next
    case d: (Inr d)
    show ?thesis
    proof (cases "commit_author c")
      case (Inl e)
      with d show ?thesis by simp
    next
      case (Inr a)
      with d Cons.IH show ?thesis by simp
    qed
  qed
qed







lemma get_commits_single_page:
  assumes "status_code (get 1) = 200" "body (get 1) = JArr xs" "length xs < 100"
  shows "get_commits get = Some (Inr \<lparr>commits = xs, requested = [1], printed = []\<rparr>)"
  unfolding get_commits_def using loop_short_page [of get 1 xs "[]" "[]"] assms by simp

lemma demo_aggregate:
  "aggregate demo_commits [] [] =
     Inr ([(''2024-01-03'', 2), (''2024-01-01'', 1)], [(JStr ''ann'', 1), (JStr ''bob'', 2)])"
  by (simp add: demo_commits_def commit_record_def commit_date_def commit_author_def)

lemma demo_report_of:
  "report_of ascii_lower demo_analyzer demo_commits not_found not_found = Inr demo_report"
proof -
  have "length demo_commits = 3"
    by (simp add: demo_commits_def)
  then show ?thesis
    by (simp add: report_of_def demo_aggregate get_file_types_def get_contributors_def
          report_contributors_def not_found_def counter_def demo_analyzer_def demo_report_def)
qed

lemma demo_generate_report:
  "generate_report ascii_lower demo_analyzer demo_provider not_found not_found = Some (Inr demo_report)"
proof -
  have "get_commits demo_provider =
      Some (Inr \<lparr>commits = demo_commits, requested = [1], printed = []\<rparr>)"
    by (rule get_commits_single_page) (simp_all add: demo_provider_def ok_page_def demo_commits_def)
  then show ?thesis
    by (simp add: generate_report_def demo_report_of)
qed

lemma report_of_Inr_iff:
  "report_of str_lower self cs t c = Inr r \<longleftrightarrow>
     (\<exists>cd au ft top.
        aggregate cs [] [] = Inr (cd, au) \<and> get_file_types str_lower t = Inr ft \<and>
        report_contributors (get_contributors c) = Inr top \<and>
        r = \<lparr>repository = repo self, analysis_period_days = days self,
             total_commits = int (length cs), commit_frequency = cd, authors = au,
             file_types = ft, contributors = top\<rparr>)"
  unfolding report_of_def by (auto simp: and_then_Inr_iff)

lemma generate_report_Some_iff:
  "generate_report str_lower self get t c = Some (Inr r) \<longleftrightarrow>
     (\<exists>f. get_commits get = Some (Inr f) \<and> report_of str_lower self (commits f) t c = Inr r)"
  by (auto simp: generate_report_def split: option.splits sum.splits)

text \<open>On a well-formed record the loop reads the day and the author that the record carries.\<close>

lemma well_formed_reads:
  assumes "well_formed c"
  shows "commit_date c = Inr (day_of c)" and "commit_author c = Inr (author_of c)"
proof -
  from assms obtain d n where
    d: "field c [''commit'', ''author'', ''date''] = Inr d" "is_string d" and
    n: "field c [''commit'', ''author'', ''name''] = Inr n" "is_string n"
    by (auto simp: well_formed_def string_field_def split: sum.splits)
  from d show "commit_date c = Inr (day_of c)"
    by (cases d) (simp_all add: commit_date_field day_of_def)
  from n show "commit_author c = Inr (author_of c)"
    by (cases n) (simp_all add: commit_author_field author_of_def)
qed

lemma aggregate_well_formed:
  assumes "\<forall>c\<in>set cs. well_formed c"
  shows "aggregate cs cd au =
           Inr (foldl incr cd (map day_of cs), foldl incr au (map author_of cs))"
  using assms by (induction cs arbitrary: cd au) (simp_all add: well_formed_reads)

text \<open>A counter holds, for every key, the number of its occurrences, and no other key.\<close>

lemma count_tally: "int (count (mset (map key cs)) k) = tally key cs k"
  by (induction cs) (simp_all add: tally_def)

lemma tally_zero_iff: "tally key cs k = 0 \<longleftrightarrow> k \<notin> set (map key cs)"
  by (induction cs) (auto simp: tally_def)

lemma map_of_tally:
  "map_of (foldl incr [] (map key cs)) k =
     (if tally key cs k = 0 then None else Some (tally key cs k))"
proof -
  have "map_of (foldl incr [] (map key cs)) k =
      (if k \<in> set (map key cs) then Some (int (count (mset (map key cs)) k)) else None)"
    unfolding map_of_foldl_incr by simp
  then show ?thesis
    unfolding count_tally using tally_zero_iff [of key cs k] by auto
qed

lemma distinct_foldl_incr: "distinct (map fst d) \<Longrightarrow> distinct (map fst (foldl incr d ks))"
  by (induction ks arbitrary: d) (simp_all add: distinct_incr)

text \<open>
  C1. Let the commit fetch return a list of records that each carry a commit date and an
  author name. Then \<open>generate_report\<close> produces a report exactly when the file types and the
  contributors can be read, and every report it produces has the length of the list as
  \<open>total_commits\<close>, the values of \<open>commit_frequency\<close> sum to \<open>total_commits\<close>, and
  \<open>total_commits\<close> is the sum of the values of \<open>authors\<close>: \<open>commit_frequency\<close> maps every
  day to the number of the commits of that day and \<open>authors\<close> every author to the number of
  their commits, and they have no other keys.
\<close>

theorem report_sums_equal_total:
  assumes "get_commits get = Some (Inr f)"
    and "\<forall>c\<in>set (commits f). well_formed c"
  shows "((\<exists>r. generate_report str_lower self get t c = Some (Inr r)) \<longleftrightarrow>
            (\<exists>ft. get_file_types str_lower t = Inr ft) \<and>
            (\<exists>entries. report_contributors (get_contributors c) = Inr entries)) \<and>
         (\<forall>r. generate_report str_lower self get t c = Some (Inr r) \<longrightarrow>
            total_commits r = int (length (commits f)) \<and>
            sum_values (commit_frequency r) = total_commits r \<and>
            total_commits r = sum_values (authors r) \<and>
            (\<forall>d. map_of (commit_frequency r) d =
                   (if tally day_of (commits f) d = 0 then None
                    else Some (tally day_of (commits f) d))) \<and>
            (\<forall>a. map_of (authors r) a =
                   (if tally author_of (commits f) a = 0 then None
                    else Some (tally author_of (commits f) a))) \<and>
            distinct (map fst (commit_frequency r)) \<and> distinct (map fst (authors r)))"
proof -
  let ?cs = "commits f"
  let ?cd = "foldl incr [] (map day_of ?cs)" and ?au = "foldl incr [] (map author_of ?cs)"
  have agg: "aggregate ?cs [] [] = Inr (?cd, ?au)"
    using assms(2) by (rule aggregate_well_formed)
  have report: "generate_report str_lower self get t c = Some (Inr r) \<longleftrightarrow>
      (\<exists>ft entries. get_file_types str_lower t = Inr ft \<and>
         report_contributors (get_contributors c) = Inr entries \<and>
         r = \<lparr>repository = repo self, analysis_period_days = days self,
              total_commits = int (length ?cs), commit_frequency = ?cd, authors = ?au,
              file_types = ft, contributors = entries\<rparr>)" for r
    unfolding generate_report_Some_iff using assms(1) by (auto simp: report_of_Inr_iff agg)
  have produced: "(\<exists>r. generate_report str_lower self get t c = Some (Inr r)) \<longleftrightarrow>
      (\<exists>ft. get_file_types str_lower t = Inr ft) \<and>
      (\<exists>entries. report_contributors (get_contributors c) = Inr entries)"
    unfolding report by blast
  have sums: "sum_values ?cd = int (length ?cs)" "sum_values ?au = int (length ?cs)"
    using sum_values_foldl_incr [of "[]" "map day_of ?cs"]
      sum_values_foldl_incr [of "[]" "map author_of ?cs"]
    by (simp_all add: sum_values_def)
  have keys: "distinct (map fst ?cd)" "distinct (map fst ?au)"
    by (simp_all add: distinct_foldl_incr)
  have "total_commits r = int (length ?cs) \<and>
      sum_values (commit_frequency r) = total_commits r \<and>
      total_commits r = sum_values (authors r) \<and>
      (\<forall>d. map_of (commit_frequency r) d =
             (if tally day_of ?cs d = 0 then None else Some (tally day_of ?cs d))) \<and>
      (\<forall>a. map_of (authors r) a =
             (if tally author_of ?cs a = 0 then None else Some (tally author_of ?cs a))) \<and>
      distinct (map fst (commit_frequency r)) \<and> distinct (map fst (authors r))"
    if "generate_report str_lower self get t c = Some (Inr r)" for r
  proof -
    from that obtain ft entries where
      r: "r = \<lparr>repository = repo self, analysis_period_days = days self,
              total_commits = int (length ?cs), commit_frequency = ?cd, authors = ?au,
              file_types = ft, contributors = entries\<rparr>"
      unfolding report by blast
    show ?thesis
      unfolding r by (simp add: sums keys map_of_tally)
  qed
  with produced show ?thesis by blast
qed

text \<open>Three commits on two days by two authors.\<close>

theorem report_sums_equal_total_demo:
  "generate_report ascii_lower demo_analyzer demo_provider not_found not_found =
     Some (Inr demo_report) \<and>
   total_commits demo_report = 3 \<and>
   sum_values (commit_frequency demo_report) = 3 \<and>
   sum_values (authors demo_report) = 3 \<and>
   map_of (commit_frequency demo_report) ''2024-01-03'' = Some 2 \<and>
   tally day_of demo_commits ''2024-01-03'' = 2 \<and>
   map_of (authors demo_report) (JStr ''ann'') = Some 1 \<and>
   tally author_of demo_commits (JStr ''ann'') = 1"
proof -
  let ?f = "\<lparr>commits = demo_commits, requested = [1], printed = []\<rparr>"
  have fetched: "get_commits demo_provider = Some (Inr ?f)"
    by (rule get_commits_single_page) (simp_all add: demo_provider_def ok_page_def demo_commits_def)
  have records: "\<forall>c\<in>set (commits ?f). well_formed c"
    by (simp add: demo_commits_def commit_record_def well_formed_def string_field_def)
  have "length demo_commits = 3"
    by (simp add: demo_commits_def)
  moreover have "tally day_of demo_commits ''2024-01-03'' = 2"
    and "tally author_of demo_commits (JStr ''ann'') = 1"
    by (simp_all add: tally_def day_of_def author_of_def demo_commits_def commit_record_def)
  moreover note demo_generate_report
    report_sums_equal_total [OF fetched records, of ascii_lower demo_analyzer not_found not_found,
      THEN conjunct2, THEN spec, of demo_report, THEN mp, OF demo_generate_report]
  ultimately show ?thesis
    by simp
qed

lemma map_of_counter_perm:
  assumes "mset ks' = mset ks"
  shows "map_of (foldl incr [] ks') = map_of (foldl incr [] ks)"
proof
  fix k
  from assms have "set ks' = set ks"
    by (rule mset_eq_setD)
  moreover from assms have "count (mset ks') k = count (mset ks) k"
    by (rule arg_cong)
  ultimately show "map_of (foldl incr [] ks') k = map_of (foldl incr [] ks) k"
    unfolding map_of_foldl_incr by (simp only:)
qed

text \<open>
  C9. If \<open>generate_report\<close> produces a report from a list of commits, it produces one from
  every permutation of the list, with the same \<open>commit_frequency\<close> and \<open>authors\<close> as
  mappings (the order of the keys may differ) and the same \<open>total_commits\<close>.
\<close>

theorem report_independent_of_commit_order:
  assumes "mset cs' = mset cs" and "report_of str_lower self cs t c = Inr r"
  shows "\<exists>r'. report_of str_lower self cs' t c = Inr r' \<and>
           map_of (commit_frequency r') = map_of (commit_frequency r) \<and>
           map_of (authors r') = map_of (authors r) \<and>
           total_commits r' = total_commits r"
proof -
  from assms(2) obtain cd au ft top where
    agg: "aggregate cs [] [] = Inr (cd, au)" and ft: "get_file_types str_lower t = Inr ft" and
    top: "report_contributors (get_contributors c) = Inr top" and
    r: "r = \<lparr>repository = repo self, analysis_period_days = days self,
             total_commits = int (length cs), commit_frequency = cd, authors = au,
             file_types = ft, contributors = top\<rparr>"
    unfolding report_of_Inr_iff by blast
  let ?date = "\<lambda>c. projr (commit_date c)" and ?author = "\<lambda>c. projr (commit_author c)"
  from agg have ok: "\<forall>c\<in>set cs. \<not> isl (commit_date c) \<and> \<not> isl (commit_author c)"
    and cd: "cd = foldl incr [] (map ?date cs)" and au: "au = foldl incr [] (map ?author cs)"
    by (simp_all add: aggregate_Inr_iff)
  have "set cs' = set cs"
    using assms(1) by (rule mset_eq_setD)
  with ok have agg': "aggregate cs' [] [] =
      Inr (foldl incr [] (map ?date cs'), foldl incr [] (map ?author cs'))"
    by (simp add: aggregate_Inr_iff)
  let ?r' = "\<lparr>repository = repo self, analysis_period_days = days self,
      total_commits = int (length cs'), commit_frequency = foldl incr [] (map ?date cs'),
      authors = foldl incr [] (map ?author cs'), file_types = ft, contributors = top\<rparr>"
  from agg' ft top have "report_of str_lower self cs' t c = Inr ?r'"
    unfolding report_of_Inr_iff by blast
  moreover have dates: "mset (map ?date cs') = mset (map ?date cs)"
    and names: "mset (map ?author cs') = mset (map ?author cs)"
    by (simp_all only: mset_map assms(1))
  have "map_of (foldl incr [] (map ?date cs')) = map_of cd"
    unfolding cd using dates by (rule map_of_counter_perm)
  moreover have "map_of (foldl incr [] (map ?author cs')) = map_of au"
    unfolding au using names by (rule map_of_counter_perm)
  ultimately have "report_of str_lower self cs' t c = Inr ?r'"
    and "map_of (foldl incr [] (map ?date cs')) = map_of cd"
    and "map_of (foldl incr [] (map ?author cs')) = map_of au"
    by blast+
  moreover from this(2,3) have "map_of (commit_frequency ?r') = map_of (commit_frequency r)"
    and "map_of (authors ?r') = map_of (authors r)"
    by (simp_all add: r)
  moreover have "length cs' = length cs"
    using assms(1) by (rule mset_eq_length)
  then have "total_commits ?r' = total_commits r"
    by (simp add: r)
  ultimately show ?thesis by blast
qed


text \<open>The same three commits in another order: equal mappings, other key order.\<close>

lemma reordered_perm: "mset reordered_commits = mset demo_commits"
  by (simp add: reordered_commits_def demo_commits_def)

theorem report_independent_of_commit_order_demo:
  "\<exists>r'. report_of ascii_lower demo_analyzer reordered_commits not_found not_found = Inr r' \<and>
      commit_frequency r' = [(''2024-01-03'', 2), (''2024-01-01'', 1)] \<and>
      commit_frequency demo_report = [(''2024-01-03'', 2), (''2024-01-01'', 1)] \<and>
      map_of (authors r') = map_of (authors demo_report) \<and>
      authors r' = [(JStr ''bob'', 2), (JStr ''ann'', 1)] \<and>
      authors demo_report = [(JStr ''ann'', 1), (JStr ''bob'', 2)] \<and>
      total_commits r' = 3"
proof -
  from report_independent_of_commit_order [OF reordered_perm demo_report_of]
  obtain r' where r': "report_of ascii_lower demo_analyzer reordered_commits not_found not_found = Inr r'"
    and eq: "map_of (authors r') = map_of (authors demo_report)"
      "total_commits r' = total_commits demo_report"
    by blast
  from r' have "commit_frequency r' = [(''2024-01-03'', 2), (''2024-01-01'', 1)]"
    and "authors r' = [(JStr ''bob'', 2), (JStr ''ann'', 1)]"
    by (auto simp: report_of_Inr_iff reordered_commits_def commit_record_def commit_date_def
          commit_author_def)
  with r' eq show ?thesis
    by (simp add: demo_report_def)
qed










text \<open>
  The lookups after the loop are another matter: a contributor entry without a \<open>login\<close>
  ends the run in a KeyError whatever the commit records are.
\<close>

lemma contributor_without_login:
  "report_of ascii_lower demo_analyzer demo_commits not_found anonymous_contributors =
     Inl KeyError"
  by (simp add: report_of_def demo_aggregate get_file_types_def not_found_def counter_def
        get_contributors_def anonymous_contributors_def report_contributors_def)

section \<open>Failed fetches\<close>

text \<open>
  C8. On a status other than 200, \<open>get_file_types\<close> returns the empty counter and
  \<open>get_contributors\<close> the empty list, neither raises; every report of such a run has an
  empty \<open>file_types\<close>, respectively an empty \<open>contributors\<close>; and the run still ends in a
  report with all its fields whenever the commit fetch returns, the commits aggregate and
  the other fetch yields its part.
\<close>

theorem failed_fetch_gives_empty_result:
  "(status_code t \<noteq> 200 \<longrightarrow> get_file_types str_lower t = Inr []) \<and>
   (status_code c \<noteq> 200 \<longrightarrow> get_contributors c = JArr []) \<and>
   (status_code t \<noteq> 200 \<and> generate_report str_lower self get t c = Some (Inr r) \<longrightarrow> file_types r = []) \<and>
   (status_code c \<noteq> 200 \<and> generate_report str_lower self get t c = Some (Inr r) \<longrightarrow> contributors r = []) \<and>
   (status_code t \<noteq> 200 \<and> get_commits get = Some (Inr f) \<and>
    aggregate (commits f) [] [] = Inr (cd, au) \<and>
    report_contributors (get_contributors c) = Inr entries \<longrightarrow>
      generate_report str_lower self get t c =
        Some (Inr \<lparr>repository = repo self, analysis_period_days = days self,
                   total_commits = int (length (commits f)), commit_frequency = cd,
                   authors = au, file_types = [], contributors = entries\<rparr>)) \<and>
   (status_code c \<noteq> 200 \<and> get_commits get = Some (Inr f) \<and>
    aggregate (commits f) [] [] = Inr (cd, au) \<and> get_file_types str_lower t = Inr ft \<longrightarrow>
      generate_report str_lower self get t c =
        Some (Inr \<lparr>repository = repo self, analysis_period_days = days self,
                   total_commits = int (length (commits f)), commit_frequency = cd,
                   authors = au, file_types = ft, contributors = []\<rparr>))"
proof -
  have tree: "get_file_types str_lower t = Inr []" if "status_code t \<noteq> 200"
    using that by (simp add: get_file_types_def counter_def)
  have contribs: "get_contributors c = JArr []" if "status_code c \<noteq> 200"
    using that by (simp add: get_contributors_def)
  have none: "report_contributors (JArr []) = Inr []"
    by (simp add: report_contributors_def)
  have no_types: "file_types r = []"
    if "status_code t \<noteq> 200" "generate_report str_lower self get t c = Some (Inr r)"
    using that tree by (auto simp: generate_report_Some_iff report_of_Inr_iff)
  have no_contributors: "contributors r = []"
    if "status_code c \<noteq> 200" "generate_report str_lower self get t c = Some (Inr r)"
    using that contribs none by (auto simp: generate_report_Some_iff report_of_Inr_iff)
  have run: "generate_report str_lower self get t c =
        Some (Inr \<lparr>repository = repo self, analysis_period_days = days self,
                   total_commits = int (length (commits f)), commit_frequency = cd,
                   authors = au, file_types = ft', contributors = top'\<rparr>)"
    if "get_commits get = Some (Inr f)" "aggregate (commits f) [] [] = Inr (cd, au)"
      "get_file_types str_lower t = Inr ft'" "report_contributors (get_contributors c) = Inr top'"
    for ft' top'
    using that by (simp add: generate_report_Some_iff report_of_Inr_iff)
  from tree contribs none no_types no_contributors run [of "[]" entries] run [of ft "[]"]
  show ?thesis by presburger
qed

text \<open>Both fetches refused: the report of the three commits, with the two fields empty.\<close>

theorem failed_fetch_demo:
  "get_file_types ascii_lower not_found = Inr [] \<and> get_contributors not_found = JArr [] \<and>
   generate_report ascii_lower demo_analyzer demo_provider not_found not_found =
     Some (Inr \<lparr>repository = ''octocat/hello'', analysis_period_days = 30, total_commits = 3,
                commit_frequency = [(''2024-01-03'', 2), (''2024-01-01'', 1)],
                authors = [(JStr ''ann'', 1), (JStr ''bob'', 2)],
                file_types = [], contributors = []\<rparr>)"
proof -
  have failed: "status_code not_found \<noteq> 200"
    by (simp add: not_found_def)
  have fetched: "get_commits demo_provider =
      Some (Inr \<lparr>commits = demo_commits, requested = [1], printed = []\<rparr>)"
    by (rule get_commits_single_page) (simp_all add: demo_provider_def ok_page_def demo_commits_def)
  have "length demo_commits = 3"
    by (simp add: demo_commits_def)
  with failed fetched demo_aggregate
    failed_fetch_gives_empty_result [of not_found ascii_lower not_found demo_analyzer demo_provider _
      "\<lparr>commits = demo_commits, requested = [1], printed = []\<rparr>"
      "[(''2024-01-03'', 2), (''2024-01-01'', 1)]" "[(JStr ''ann'', 1), (JStr ''bob'', 2)]" "[]" "[]"]
  show ?thesis
    by (simp add: demo_analyzer_def)
qed

section \<open>File types\<close>

lemma rfind_absent: "c \<notin> set p \<Longrightarrow> rfind c p = - 1"
  by (induction p) (auto simp: Let_def)

lemma rfind_less: "rfind c p < int (length p)"
  by (induction p) (simp_all add: Let_def)

lemma rfind_last: "c \<notin> set ys \<Longrightarrow> rfind c (xs @ c # ys) = int (length xs)"
  by (induction xs) (simp_all add: Let_def rfind_absent)

lemma rfind_append_absent: "c \<notin> set ys \<Longrightarrow> rfind c (xs @ ys) = rfind c xs"
  by (induction xs) (simp_all add: Let_def rfind_absent)

lemma after_last_absent: "c \<notin> set (after_last c s)"
  by (auto simp: after_last_def dest: set_takeWhileD)

lemma split_last:
  assumes "c \<in> set s"
  shows "s = before_last c s @ c # after_last c s"
proof -
  let ?P = "\<lambda>x. x \<noteq> c"
  from assms have "dropWhile ?P (rev s) \<noteq> []"
    by simp
  moreover from this have "hd (dropWhile ?P (rev s)) = c"
    using hd_dropWhile [of ?P "rev s"] by simp
  ultimately have "dropWhile ?P (rev s) = c # drop 1 (dropWhile ?P (rev s))"
    by (cases "dropWhile ?P (rev s)") simp_all
  then have "rev s = takeWhile ?P (rev s) @ c # drop 1 (dropWhile ?P (rev s))"
    using takeWhile_dropWhile_id [of ?P "rev s"] by simp
  then have "rev (rev s) = rev (takeWhile ?P (rev s) @ c # drop 1 (dropWhile ?P (rev s)))"
    by (rule arg_cong)
  then show ?thesis
    by (simp add: after_last_def before_last_def)
qed

lemma after_last_none:
  assumes "c \<notin> set s"
  shows "after_last c s = s"
proof -
  from assms have all: "takeWhile (\<lambda>x. x \<noteq> c) (rev s) = rev s"
    by auto
  show ?thesis
    unfolding after_last_def by (simp only: all rev_rev_ident)
qed

text \<open>The path is its directory part followed by its final component.\<close>

lemma split_path:
  obtains dir where "p = dir @ final_component p" and "rfind CHR ''/'' p + 1 = int (length dir)"
proof (cases "CHR ''/'' \<in> set p")
  case True
  let ?dir = "before_last CHR ''/'' p @ ''/''"
  from split_last [OF True] have p: "p = ?dir @ final_component p"
    by (simp add: final_component_def)
  have "rfind CHR ''/'' (before_last CHR ''/'' p @ CHR ''/'' # after_last CHR ''/'' p)
      = int (length (before_last CHR ''/'' p))"
    by (rule rfind_last) (rule after_last_absent)
  with split_last [OF True] have "rfind CHR ''/'' p + 1 = int (length ?dir)"
    by simp
  with p show ?thesis by (rule that)
next
  case False
  then have "p = [] @ final_component p" "rfind CHR ''/'' p + 1 = int (length ([]::string))"
    by (simp_all add: final_component_def after_last_none rfind_absent)
  then show ?thesis by (rule that)
qed

lemma splitext_no_dot:
  assumes "CHR ''.'' \<notin> set (final_component p)"
  shows "snd (splitext p) = []"
proof -
  obtain dir where p: "p = dir @ final_component p"
    and sep: "rfind CHR ''/'' p + 1 = int (length dir)"
    by (rule split_path)
  from assms have "rfind CHR ''.'' (dir @ final_component p) = rfind CHR ''.'' dir"
    by (rule rfind_append_absent)
  with p have "rfind CHR ''.'' p = rfind CHR ''.'' dir"
    by simp
  with sep rfind_less [of "CHR ''.''" dir] have "\<not> rfind CHR ''/'' p < rfind CHR ''.'' p"
    by simp
  then show ?thesis
    by (simp add: splitext_def Let_def)
qed

lemma splitext_dot:
  assumes "CHR ''.'' \<in> set (final_component p)"
  shows "snd (splitext p) =
           (if list_ex (\<lambda>c. c \<noteq> CHR ''.'') (before_last CHR ''.'' (final_component p))
            then CHR ''.'' # after_last CHR ''.'' (final_component p) else [])"
proof -
  let ?name = "final_component p"
  let ?b = "before_last CHR ''.'' ?name" and ?a = "after_last CHR ''.'' ?name"
  obtain dir where p: "p = dir @ ?name"
    and sep: "rfind CHR ''/'' p + 1 = int (length dir)"
    by (rule split_path)
  from split_last [OF assms] have name: "?name = ?b @ CHR ''.'' # ?a" .
  with p have p': "p = (dir @ ?b) @ CHR ''.'' # ?a"
    by simp
  have "rfind CHR ''.'' ((dir @ ?b) @ CHR ''.'' # ?a) = int (length (dir @ ?b))"
    by (rule rfind_last) (rule after_last_absent)
  with p' have dot: "rfind CHR ''.'' p = int (length dir + length ?b)"
    by simp
  from sep dot have cmp: "rfind CHR ''/'' p < rfind CHR ''.'' p"
    and n1: "nat (rfind CHR ''.'' p - (rfind CHR ''/'' p + 1)) = length ?b"
    and n2: "nat (rfind CHR ''/'' p + 1) = length dir"
    and n3: "nat (rfind CHR ''.'' p) = length dir + length ?b"
    by simp_all
  have slice: "take (length ?b) (drop (length dir) p) = ?b"
    by (subst p') simp
  have ext: "drop (length dir + length ?b) p = CHR ''.'' # ?a"
    by (subst p') simp
  show ?thesis
    unfolding splitext_def Let_def n1 n2 n3 using cmp
    by (simp add: slice ext)
qed

text \<open>
  Two facts of \<^verbatim>\<open>str.lower\<close> are used below: only the empty text is lower-cased to the
  empty text, and no text is lower-cased to \<open>Other\<close>, which has a capital letter. The
  lower-casing of ASCII text has both.
\<close>

lemma ascii_lower_Nil_iff: "ascii_lower s = [] \<longleftrightarrow> s = []"
  by (simp add: ascii_lower_def)

lemma ascii_lower_char_not_O: "ascii_lower_char c \<noteq> CHR ''O''"
  by (auto simp: ascii_lower_char_def split: if_splits)

lemma ascii_lower_not_Other: "ascii_lower s \<noteq> ''Other''"
proof
  assume "ascii_lower s = ''Other''"
  then obtain c where "ascii_lower_char c = CHR ''O''"
    by (cases s) (auto simp: ascii_lower_def)
  with ascii_lower_char_not_O show False by blast
qed

lemma extension_eq:
  assumes "\<And>s. str_lower s = [] \<longleftrightarrow> s = []"
  shows "extension str_lower p =
     (let name = final_component p; e = after_last CHR ''.'' name in
      if CHR ''.'' \<in> set name \<and> (\<exists>c\<in>set (before_last CHR ''.'' name). c \<noteq> CHR ''.'') \<and> e \<noteq> []
      then str_lower e else ''no_extension'')"
proof (cases "CHR ''.'' \<in> set (final_component p)")
  case True
  then show ?thesis
    by (simp add: extension_def splitext_dot Let_def assms list_ex_iff)
next
  case False
  then show ?thesis
    by (simp add: extension_def splitext_no_dot Let_def assms)
qed

lemma splitext_examples:
  "snd (splitext ''src/main.rs'') = ''.rs''"
  "snd (splitext ''Makefile'') = []"
  "snd (splitext ''.gitignore'') = []"
  "snd (splitext ''docs/README.MD'') = ''.MD''"
  "snd (splitext ''a.b/c'') = []"
  "snd (splitext ''archive.tar.gz'') = ''.gz''"
  "snd (splitext ''trailing.'') = ''.''"
  "snd (splitext ''lib/util.RS'') = ''.RS''"
  by (simp_all add: splitext_def Let_def)

lemma extension_examples:
  "extension ascii_lower ''src/main.rs'' = ''rs''"
  "extension ascii_lower ''Makefile'' = ''no_extension''"
  "extension ascii_lower ''.gitignore'' = ''no_extension''"
  "extension ascii_lower ''docs/README.MD'' = ''md''"
  "extension ascii_lower ''a.b/c'' = ''no_extension''"
  "extension ascii_lower ''archive.tar.gz'' = ''gz''"
  "extension ascii_lower ''trailing.'' = ''no_extension''"
  "extension ascii_lower ''lib/util.RS'' = ''rs''"
  by (simp_all add: extension_def splitext_examples ascii_lower_def ascii_lower_char_def)

lemma claimed_example: "claimed_extension ascii_lower ''.gitignore'' = ''gitignore''"
  by (simp add: claimed_extension_def final_component_def after_last_def ascii_lower_def
        ascii_lower_char_def)

lemma blob_paths_ok:
  assumes "\<forall>item\<in>set items. tree_entry_ok item"
  shows "blob_paths items = Inr (map (\<lambda>i. JStr (entry_path i)) (filter is_blob items))"
  using assms
proof (induction items)
  case Nil
  show ?case by simp
next
  case (Cons item items)
  then have rest: "blob_paths items = Inr (map (\<lambda>i. JStr (entry_path i)) (filter is_blob items))"
    by simp
  from Cons.prems have ok: "tree_entry_ok item"
    by simp
  then obtain t where t: "subscript item ''type'' = Inr t"
    by (cases "subscript item ''type''") (simp_all add: tree_entry_ok_def has_field_def)
  show ?case
  proof (cases "is_blob item")
    case True
    with ok obtain p where "subscript item ''path'' = Inr (JStr p)"
      by (cases "subscript item ''path''"; simp add: tree_entry_ok_def string_field_def)
         (rename_tac x, case_tac x; simp)
    moreover from True have "subscript item ''type'' = Inr (JStr ''blob'')"
      by (simp add: is_blob_def)
    ultimately show ?thesis
      using True rest by (simp add: entry_path_def)
  next
    case False
    moreover from False t have "t \<noteq> JStr ''blob''"
      by (auto simp: is_blob_def)
    ultimately show ?thesis
      using t rest by simp
  qed
qed

lemma extensions_strings:
  "extensions str_lower (map JStr ps) = Inr (map (extension str_lower) ps)"
  by (induction ps) simp_all

lemma get_file_types_ok:
  assumes "status_code r = 200" and "body r = JObj kvs"
    and "map_of kvs ''tree'' = Some (JArr items)"
    and "\<forall>item\<in>set items. tree_entry_ok item"
  shows "get_file_types str_lower r =
           Inr (counter (map (\<lambda>i. extension str_lower (entry_path i)) (filter is_blob items)))"
proof -
  have "extensions str_lower (map (\<lambda>i. JStr (entry_path i)) (filter is_blob items)) =
      Inr (map (\<lambda>i. extension str_lower (entry_path i)) (filter is_blob items))"
    using extensions_strings [of str_lower "map entry_path (filter is_blob items)"]
    by (simp add: comp_def)
  with assms(1-3) blob_paths_ok [OF assms(4)] show ?thesis
    by (simp add: get_file_types_def)
qed

lemma extension_not_Other:
  assumes "\<And>s. str_lower s \<noteq> ''Other''"
  shows "extension str_lower p \<noteq> ''Other''"
  using assms by (simp add: extension_def Let_def)

lemma keys_counter: "fst ` set (foldl incr d ks) = fst ` set d \<union> set ks"
  by (induction ks arbitrary: d) (auto simp: keys_incr)

lemma extensions_Inr:
  "extensions str_lower files = Inr es \<Longrightarrow> \<forall>e\<in>set es. \<exists>p. e = extension str_lower p"
proof (induction files arbitrary: es)
  case Nil
  then show ?case by simp
next
  case (Cons f files)
  then show ?case
    by (cases f) (auto simp: and_then_Inr_iff)
qed

text \<open>
  The file types of a report are a dict, and \<open>Other\<close> is none of its keys.
\<close>

lemma get_file_types_keys:
  assumes "get_file_types str_lower r = Inr ft" and lower: "\<And>s. str_lower s \<noteq> ''Other''"
  shows "distinct (map fst ft)" and "''Other'' \<notin> fst ` set ft"
proof -
  from assms(1) have
    "ft = [] \<or> (\<exists>files es. extensions str_lower files = Inr es \<and> ft = counter es)"
    by (auto simp: get_file_types_def counter_def and_then_Inr_iff
          split: if_splits json.splits)
  then obtain es where ft: "ft = counter es"
    and es: "\<forall>e\<in>set es. \<exists>p. e = extension str_lower p"
  proof
    assume "ft = []"
    then have "ft = counter []" "\<forall>e\<in>set ([]::string list). \<exists>p. e = extension str_lower p"
      by (simp_all add: counter_def)
    then show ?thesis by (rule that)
  next
    assume "\<exists>files es. extensions str_lower files = Inr es \<and> ft = counter es"
    then obtain files es where "extensions str_lower files = Inr es" and "ft = counter es"
      by blast
    with extensions_Inr show ?thesis
      using that by blast
  qed
  from ft show "distinct (map fst ft)"
    by (simp add: counter_def distinct_foldl_incr)
  from es have "''Other'' \<notin> set es"
    using extension_not_Other [of str_lower, OF lower] by metis
  with ft show "''Other'' \<notin> fst ` set ft"
    by (simp add: counter_def keys_counter)
qed

text \<open>
  C4, as amended. The extension token of a path is the lower-cased text after the last dot
  of its final component when that dot has a character other than a dot before it in the
  component and at least one character after it, and \<open>no_extension\<close> in every other case
  (no dot, only leading dots, a trailing dot); the lower-casing is that of
  \<^verbatim>\<open>str.lower\<close>, which gives the empty text for the empty text only and leaves \<open>rs\<close> as it
  is. \<open>src/main.rs\<close> yields \<open>rs\<close> and \<open>Makefile\<close> yields \<open>no_extension\<close>. Of a tree whose
  entries can be read, \<open>get_file_types\<close> counts the extension tokens of the paths of the
  blobs and of nothing else.
\<close>

theorem extension_of_retained_files:
  assumes "\<And>s. str_lower s = [] \<longleftrightarrow> s = []" and "str_lower ''rs'' = ''rs''"
  shows "extension str_lower p =
     (let name = final_component p; e = after_last CHR ''.'' name in
      if CHR ''.'' \<in> set name \<and> (\<exists>c\<in>set (before_last CHR ''.'' name). c \<noteq> CHR ''.'') \<and> e \<noteq> []
      then str_lower e else ''no_extension'') \<and>
   extension str_lower ''src/main.rs'' = ''rs'' \<and>
   extension str_lower ''Makefile'' = ''no_extension'' \<and>
   (status_code r = 200 \<and> body r = JObj kvs \<and> map_of kvs ''tree'' = Some (JArr items) \<and>
    (\<forall>item\<in>set items. tree_entry_ok item) \<longrightarrow>
      get_file_types str_lower r =
        Inr (counter (map (\<lambda>i. extension str_lower (entry_path i)) (filter is_blob items))))"
proof -
  have "extension str_lower ''src/main.rs'' = ''rs''"
    and "extension str_lower ''Makefile'' = ''no_extension''"
    by (simp_all add: extension_def splitext_examples assms)
  then show ?thesis
    using extension_eq [of str_lower p, OF assms(1)] get_file_types_ok [of r kvs items str_lower]
    by blast
qed

text \<open>Four blobs and two directories, one of them with a dot in its name.\<close>

theorem extension_of_retained_files_demo:
  "get_file_types ascii_lower demo_tree = Inr [(''rs'', 2), (''no_extension'', 2)] \<and>
   extension ascii_lower ''src/main.rs'' = ''rs'' \<and>
   extension ascii_lower ''Makefile'' = ''no_extension''"
proof -
  let ?items = "[tree_entry ''blob'' ''src/main.rs'', tree_entry ''tree'' ''src'',
      tree_entry ''blob'' ''Makefile'', tree_entry ''tree'' ''docs.v2'',
      tree_entry ''blob'' ''.gitignore'', tree_entry ''blob'' ''lib/util.RS'']"
  let ?kvs = "[(''sha'', JStr ''9fb037999f264ba9a7fc6274d15fa3ae2ab98312''),
      (''tree'', JArr ?items), (''truncated'', JBool False)]"
  have ok: "\<forall>item\<in>set ?items. tree_entry_ok item"
    by (simp add: tree_entry_ok_def tree_entry_def has_field_def string_field_def is_blob_def)
  have response: "status_code demo_tree = 200" "body demo_tree = JObj ?kvs"
    "map_of ?kvs ''tree'' = Some (JArr ?items)"
    by (simp_all add: demo_tree_def)
  have blobs: "filter is_blob ?items =
      [tree_entry ''blob'' ''src/main.rs'', tree_entry ''blob'' ''Makefile'',
       tree_entry ''blob'' ''.gitignore'', tree_entry ''blob'' ''lib/util.RS'']"
    by (simp add: is_blob_def tree_entry_def)
  have paths: "entry_path (tree_entry ty p) = p" for ty p
    by (simp add: entry_path_def tree_entry_def)
  have rs: "ascii_lower ''rs'' = ''rs''"
    by (simp add: ascii_lower_def ascii_lower_char_def)
  note facts = extension_of_retained_files [of ascii_lower "''Makefile''" demo_tree ?kvs ?items,
      OF ascii_lower_Nil_iff rs]
  have "get_file_types ascii_lower demo_tree =
      Inr (counter (map (\<lambda>i. extension ascii_lower (entry_path i)) (filter is_blob ?items)))"
    by (rule facts [THEN conjunct2, THEN conjunct2, THEN conjunct2, THEN mp])
       (intro conjI response ok)
  then have "get_file_types ascii_lower demo_tree = Inr [(''rs'', 2), (''no_extension'', 2)]"
    by (simp only: blobs list.map paths extension_examples counter_def foldl.simps incr.simps)
       simp
  with facts [THEN conjunct2, THEN conjunct1]
    facts [THEN conjunct2, THEN conjunct2, THEN conjunct1]
  show ?thesis by blast
qed

text \<open>
  C4 as stated fails on a dotfile: the final component \<open>.gitignore\<close> has a dot, the text
  after it is \<open>gitignore\<close>, and the token is \<open>no_extension\<close>, since \<open>splitext\<close> finds no
  extension in it.
\<close>

theorem extension_of_dotfile:
  "snd (splitext ''.gitignore'') = [] \<and>
   extension ascii_lower ''.gitignore'' = ''no_extension'' \<and>
   claimed_extension ascii_lower ''.gitignore'' = ''gitignore'' \<and>
   extension ascii_lower ''.gitignore'' \<noteq> claimed_extension ascii_lower ''.gitignore''"
  using extension_examples(3) claimed_example splitext_examples(3) by simp

section \<open>Contributor ranking\<close>

lemma descending_iff: "descending k xs \<longleftrightarrow> sorted (map (\<lambda>x. - k x) xs)"
  by (simp add: descending_def sorted_wrt_map)

lemma descending_sort: "descending k (sort_descending k xs)"
  by (simp add: descending_iff sort_descending_def)

lemma mset_sort_descending: "mset (sort_descending k xs) = mset xs"
  by (simp add: sort_descending_def)

lemma sort_descending_id: "descending k xs \<Longrightarrow> sort_descending k xs = xs"
  by (simp add: descending_iff sort_descending_def sort_key_id_if_sorted)

lemma sort_descending_idem: "sort_descending k (sort_descending k xs) = sort_descending k xs"
  by (rule sort_descending_id) (rule descending_sort)

lemma keys_of_sort_key: "map f (sort_key f xs) = sort (map f xs)"
  by (rule properties_for_sort [symmetric]) simp_all

lemma keys_of_sorted_perm:
  assumes "mset ys = mset xs"
  shows "map k (sort_descending k ys) = map k (sort_descending k xs)"
proof -
  let ?f = "\<lambda>x. - k x"
  from assms have "mset (map ?f ys) = mset (map ?f xs)"
    by (simp only: mset_map)
  then have "sort (map ?f ys) = sort (map ?f xs)"
    by (intro properties_for_sort) simp_all
  then have "map ?f (sort_key ?f ys) = map ?f (sort_key ?f xs)"
    by (simp only: keys_of_sort_key)
  then have "map uminus (map ?f (sort_key ?f ys)) = map uminus (map ?f (sort_key ?f xs))"
    by (rule arg_cong)
  then show ?thesis
    by (simp add: sort_descending_def comp_def)
qed

lemma sorted_perm_distinct_keys:
  assumes "mset ys = mset xs" and "distinct (map k xs)"
  shows "sort_descending k ys = sort_descending k xs"
proof -
  from assms(2) have "inj_on k (set xs)"
    by (simp add: distinct_map)
  moreover have "set (sort_descending k ys) \<union> set (sort_descending k xs) = set xs"
    using assms(1) mset_eq_setD [OF assms(1)]
      mset_eq_setD [OF mset_sort_descending [of k ys]]
      mset_eq_setD [OF mset_sort_descending [of k xs]]
    by blast
  ultimately have "inj_on k (set (sort_descending k ys) \<union> set (sort_descending k xs))"
    by simp
  then show ?thesis
    using keys_of_sorted_perm [OF assms(1), of k] by (simp add: inj_on_map_eq_map)
qed

lemma chart_of_contributors:
  "fst (generate_contributors_chart (self\<lparr>contributors := xs\<rparr>)) =
     (map login (take 10 (sort_descending contributions xs)),
      map contributions (take 10 (sort_descending contributions xs)))"
  by (simp add: generate_contributors_chart_def Let_def)

text \<open>
  The sort is stable: the contributors with a given count stand in the sorted list as they
  stood in the list. No other descending permutation of the list is.
\<close>

lemma sort_descending_stable:
  "filter (\<lambda>x. k x = n) (sort_descending k xs) = filter (\<lambda>x. k x = n) xs"
  using sort_key_stable [of "\<lambda>x. - k x" "- n" xs] by (simp add: sort_descending_def)

lemma sort_descending_unique:
  assumes "mset zs = mset xs" and "descending k zs"
    and "\<forall>n. filter (\<lambda>x. k x = n) zs = filter (\<lambda>x. k x = n) xs"
  shows "zs = sort_descending k xs"
proof -
  have "sort_key (\<lambda>x. - k x) xs = zs"
  proof (rule properties_for_sort_key)
    show "mset zs = mset xs"
      by (rule assms(1))
    show "sorted (map (\<lambda>x. - k x) zs)"
      using assms(2) by (simp only: descending_iff)
    show "filter (\<lambda>x. - k y = - k x) zs = filter (\<lambda>x. - k y = - k x) xs" for y
    proof -
      have "(\<lambda>x. - k y = - k x) = (\<lambda>x. k x = k y)"
        by auto
      with assms(3) show ?thesis
        by (simp only:)
    qed
  qed
  then show ?thesis
    by (simp only: sort_descending_def)
qed

text \<open>
  C6, as amended. The chart of the contributors shows the first ten of the report's
  contributor list sorted in descending order of the contribution counts; the sort is a
  permutation that keeps contributors with equal counts in the order they had, and it is
  the only descending permutation that does. Sorting a list that is already descending
  returns it, and the chart of the sorted report is the chart again. For every permutation
  of a contributor list the contribution counts of the top ten are the same, and the top
  ten contributors are the same when no two contributors of the list have equal counts.
\<close>

theorem contributor_ranking:
  "fst (generate_contributors_chart self) =
     (map login (take 10 (sort_descending contributions (contributors self))),
      map contributions (take 10 (sort_descending contributions (contributors self)))) \<and>
   descending contributions (sort_descending contributions xs) \<and>
   mset (sort_descending contributions xs) = mset xs \<and>
   (\<forall>n. filter (\<lambda>c. contributions c = n) (sort_descending contributions xs) =
        filter (\<lambda>c. contributions c = n) xs) \<and>
   (mset zs = mset xs \<and> descending contributions zs \<and>
    (\<forall>n. filter (\<lambda>c. contributions c = n) zs = filter (\<lambda>c. contributions c = n) xs) \<longrightarrow>
      zs = sort_descending contributions xs) \<and>
   (descending contributions xs \<longrightarrow> sort_descending contributions xs = xs) \<and>
   generate_contributors_chart (snd (generate_contributors_chart self)) =
     generate_contributors_chart self \<and>
   (mset ys = mset xs \<longrightarrow>
      snd (fst (generate_contributors_chart (self\<lparr>contributors := ys\<rparr>))) =
      snd (fst (generate_contributors_chart (self\<lparr>contributors := xs\<rparr>)))) \<and>
   (mset ys = mset xs \<and> distinct (map contributions xs) \<longrightarrow>
      fst (generate_contributors_chart (self\<lparr>contributors := ys\<rparr>)) =
      fst (generate_contributors_chart (self\<lparr>contributors := xs\<rparr>)))"
proof -
  have chart: "fst (generate_contributors_chart self) =
     (map login (take 10 (sort_descending contributions (contributors self))),
      map contributions (take 10 (sort_descending contributions (contributors self))))"
    by (simp add: generate_contributors_chart_def Let_def)
  have again: "generate_contributors_chart (snd (generate_contributors_chart self)) =
     generate_contributors_chart self"
    by (simp add: generate_contributors_chart_def Let_def sort_descending_idem)
  have stable: "\<forall>n. filter (\<lambda>c. contributions c = n) (sort_descending contributions xs) =
      filter (\<lambda>c. contributions c = n) xs"
    by (simp only: sort_descending_stable) simp
  have only: "zs = sort_descending contributions xs"
    if "mset zs = mset xs" "descending contributions zs"
      "\<forall>n. filter (\<lambda>c. contributions c = n) zs = filter (\<lambda>c. contributions c = n) xs"
    using that by (rule sort_descending_unique)
  have counts: "snd (fst (generate_contributors_chart (self\<lparr>contributors := ys\<rparr>))) =
      snd (fst (generate_contributors_chart (self\<lparr>contributors := xs\<rparr>)))"
    if "mset ys = mset xs"
    using keys_of_sorted_perm [OF that, of contributions]
    by (simp add: chart_of_contributors take_map [symmetric])
  have same: "fst (generate_contributors_chart (self\<lparr>contributors := ys\<rparr>)) =
      fst (generate_contributors_chart (self\<lparr>contributors := xs\<rparr>))"
    if "mset ys = mset xs" "distinct (map contributions xs)"
    using sorted_perm_distinct_keys [OF that] by (simp add: chart_of_contributors)
  from chart again stable only counts same descending_sort [of contributions xs]
    mset_sort_descending [of contributions xs] sort_descending_id [of contributions xs]
  show ?thesis by blast
qed

lemma fifteen_perm: "mset fifteen_shuffled = mset fifteen"
  by (simp add: fifteen_def fifteen_shuffled_def)

lemma fifteen_sorted: "sort_descending contributions fifteen = fifteen"
  by (rule sort_descending_id) (simp add: descending_def fifteen_def named_def)

lemma fifteen_shuffled_sorted:
  "sort_descending contributions fifteen_shuffled =
     [named ''a'' 20, named ''b'' 19, named ''c'' 18, named ''d'' 17, named ''e'' 16,
      named ''f'' 15, named ''g'' 14, named ''h'' 13, named ''i'' 12, named ''k'' 5,
      named ''j'' 5, named ''l'' 4, named ''m'' 3, named ''n'' 2, named ''o'' 1]"
  by (simp add: sort_descending_def fifteen_shuffled_def named_def)

text \<open>
  The fifteen contributors and their shuffle: the same ten counts, and the two contributors
  with five contributions in the order of the shuffle.
\<close>

theorem contributor_ranking_demo:
  "snd (fst (generate_contributors_chart (demo_stats\<lparr>contributors := fifteen_shuffled\<rparr>))) =
     [20, 19, 18, 17, 16, 15, 14, 13, 12, 5] \<and>
   sort_descending contributions fifteen = fifteen \<and>
   filter (\<lambda>c. contributions c = 5) (sort_descending contributions fifteen_shuffled) =
     [named ''k'' 5, named ''j'' 5]"
proof -
  have "descending contributions fifteen"
    by (simp add: descending_def fifteen_def named_def)
  moreover have "snd (fst (generate_contributors_chart (demo_stats\<lparr>contributors := fifteen\<rparr>))) =
      [20, 19, 18, 17, 16, 15, 14, 13, 12, 5]"
    by (simp add: chart_of_contributors fifteen_sorted) (simp add: fifteen_def named_def)
  moreover have "filter (\<lambda>c. contributions c = 5) fifteen_shuffled = [named ''k'' 5, named ''j'' 5]"
    by (simp add: fifteen_shuffled_def named_def)
  moreover note contributor_ranking [of demo_stats fifteen fifteen fifteen_shuffled]
    contributor_ranking [of demo_stats fifteen_shuffled fifteen_shuffled fifteen_shuffled,
      THEN conjunct2, THEN conjunct2, THEN conjunct2, THEN conjunct1, THEN spec, of 5]
  ultimately show ?thesis
    using fifteen_perm by simp
qed

text \<open>
  C6 as stated fails on a tie: \<open>j\<close> and \<open>k\<close> have five contributions each, and which of
  them is the tenth of the chart depends on the order of the list.
\<close>

theorem contributor_ranking_tie:
  "length fifteen = 15 \<and> mset fifteen_shuffled = mset fifteen \<and>
   fst (fst (generate_contributors_chart (demo_stats\<lparr>contributors := fifteen\<rparr>))) =
     [''a'', ''b'', ''c'', ''d'', ''e'', ''f'', ''g'', ''h'', ''i'', ''j''] \<and>
   fst (fst (generate_contributors_chart (demo_stats\<lparr>contributors := fifteen_shuffled\<rparr>))) =
     [''a'', ''b'', ''c'', ''d'', ''e'', ''f'', ''g'', ''h'', ''i'', ''k''] \<and>
   fst (generate_contributors_chart (demo_stats\<lparr>contributors := fifteen_shuffled\<rparr>)) \<noteq>
   fst (generate_contributors_chart (demo_stats\<lparr>contributors := fifteen\<rparr>))"
proof -
  have "fst (fst (generate_contributors_chart (demo_stats\<lparr>contributors := fifteen\<rparr>))) =
     [''a'', ''b'', ''c'', ''d'', ''e'', ''f'', ''g'', ''h'', ''i'', ''j'']"
    by (simp add: chart_of_contributors fifteen_sorted) (simp add: fifteen_def named_def)
  moreover have
    "fst (fst (generate_contributors_chart (demo_stats\<lparr>contributors := fifteen_shuffled\<rparr>))) =
     [''a'', ''b'', ''c'', ''d'', ''e'', ''f'', ''g'', ''h'', ''i'', ''k'']"
    by (simp add: chart_of_contributors fifteen_shuffled_sorted) (simp add: named_def)
  moreover have "length fifteen = 15"
    by (simp add: fifteen_def)
  ultimately show ?thesis
    using fifteen_perm by auto
qed

section \<open>The charts and the report\<close>

text \<open>Three of the four chart methods leave \<open>self.stats\<close> as it is.\<close>

lemma other_charts_leave_stats:
  "snd (generate_commit_frequency_chart self) = self"
  "snd (generate_authors_activity_chart self) = self"
  "generate_file_types_chart self = Inr (ch, self') \<Longrightarrow> self' = self"
  by (auto simp: generate_commit_frequency_chart_def generate_authors_activity_chart_def
        generate_file_types_chart_def Let_def and_then_Inr_iff)

text \<open>The fourth leaves every field but \<open>contributors\<close>, which it sorts.\<close>

lemma contributors_chart_frame:
  "snd (generate_contributors_chart self) =
     self\<lparr>contributors := sort_descending contributions (contributors self)\<rparr>"
  by (simp add: generate_contributors_chart_def Let_def)

text \<open>
  C5. \<open>generate_contributors_chart\<close> does not leave the report unchanged: on a report whose
  contributors are \<open>ann\<close> with 3 and \<open>bob\<close> with 5 contributions, in this order, it leaves
  \<open>bob\<close> before \<open>ann\<close> in the report.
\<close>

theorem contributors_chart_reorders_report:
  "contributors demo_stats = [named ''ann'' 3, named ''bob'' 5] \<and>
   contributors (snd (generate_contributors_chart demo_stats)) = [named ''bob'' 5, named ''ann'' 3] \<and>
   snd (generate_contributors_chart demo_stats) \<noteq> demo_stats"
proof -
  have before: "contributors demo_stats = [named ''ann'' 3, named ''bob'' 5]"
    by (simp add: demo_stats_def)
  have after: "contributors (snd (generate_contributors_chart demo_stats)) =
      [named ''bob'' 5, named ''ann'' 3]"
    by (simp add: contributors_chart_frame before sort_descending_def named_def)
  have "named ''bob'' 5 \<noteq> named ''ann'' 3"
    by (simp add: named_def)
  with before after have "contributors (snd (generate_contributors_chart demo_stats)) \<noteq>
      contributors demo_stats"
    by simp
  then have "snd (generate_contributors_chart demo_stats) \<noteq> demo_stats"
    by auto
  with before after show ?thesis by simp
qed

section \<open>File type shares\<close>

text \<open>The threshold of a total of 100 files is the float 2.0.\<close>

lemma threshold_of_100: "threshold 100 = Inr (2 * 2 ^ 58)"
  by (simp add: threshold_def float_of_int_def round53_def two_percent_def Let_def
        bit_length.simps)

text \<open>The length of a number in bits.\<close>

lemma bit_length_0: "bit_length 0 = 0"
  by (simp add: bit_length.simps)

lemma bit_length_bound: "n < 2 ^ bit_length n"
proof (induction n rule: bit_length.induct)
  case (1 n)
  show ?case
  proof (cases "n = 0")
    case True
    then show ?thesis by (simp add: bit_length_0)
  next
    case False
    with "1.IH" have "n div 2 < 2 ^ bit_length (n div 2)" by simp
    then have "n < 2 * 2 ^ bit_length (n div 2)" by linarith
    with False show ?thesis by (subst bit_length.simps) simp
  qed
qed

lemma bit_length_le: "n < 2 ^ k \<Longrightarrow> bit_length n \<le> k"
proof (induction n arbitrary: k rule: bit_length.induct)
  case (1 n)
  show ?case
  proof (cases "n = 0")
    case True
    then show ?thesis by (simp add: bit_length_0)
  next
    case False
    with "1.prems" obtain j where k: "k = Suc j"
      by (cases k) simp_all
    with "1.prems" have "n div 2 < 2 ^ j" by simp
    with "1.IH" False have "bit_length (n div 2) \<le> j" by simp
    with False k show ?thesis by (subst bit_length.simps) simp
  qed
qed

text \<open>
  Rounding a non-negative number: it is kept when it has at most 53 bits, and is rounded at
  bit \<open>s\<close> when it has \<open>s + 53\<close>.
\<close>

lemma round53_cases:
  assumes "0 \<le> N"
  obtains (exact) "bit_length (nat N) \<le> 53" and "round53 N = N"
  | (rounded) s where "bit_length (nat N) = s + 53" and "0 < s"
      and "round53 N =
        (if 2 ^ (s - 1) < N mod 2 ^ s \<or> (N mod 2 ^ s = 2 ^ (s - 1) \<and> odd (N div 2 ^ s))
         then N div 2 ^ s + 1 else N div 2 ^ s) * 2 ^ s"
proof (cases "bit_length (nat N) \<le> 53")
  case True
  with assms have "round53 N = N"
    by (simp add: round53_def Let_def)
  with True show ?thesis by (rule exact)
next
  case False
  define s where "s = bit_length (nat N) - 53"
  with False have l: "bit_length (nat N) = s + 53" and s: "0 < s"
    by simp_all
  from False have "nat N \<noteq> 0"
    by (auto simp: bit_length_0)
  with assms have "0 < N"
    by simp
  then have "\<bar>N\<bar> = N" "sgn N = 1"
    by simp_all
  with False have "round53 N =
      (if 2 ^ (s - 1) < N mod 2 ^ s \<or> (N mod 2 ^ s = 2 ^ (s - 1) \<and> odd (N div 2 ^ s))
       then N div 2 ^ s + 1 else N div 2 ^ s) * 2 ^ s"
    unfolding round53_def Let_def s_def by simp
  with l s show ?thesis by (rule rounded)
qed

lemma round53_nonneg:
  assumes "0 \<le> N"
  shows "0 \<le> round53 N"
  using assms
proof (cases N rule: round53_cases)
  case exact
  with assms show ?thesis by simp
next
  case (rounded s)
  from assms have "0 \<le> N div 2 ^ s"
    by (simp add: pos_imp_zdiv_nonneg_iff)
  with rounded(3) show ?thesis
    by simp
qed

lemma round53_lower:
  assumes "0 \<le> N" and "N < 2 ^ 106"
  shows "N - 2 ^ 52 \<le> round53 N"
  using assms(1)
proof (cases N rule: round53_cases)
  case exact
  then show ?thesis by simp
next
  case (rounded s)
  from assms have "nat N < 2 ^ 106"
    by (simp add: nat_less_iff)
  then have "bit_length (nat N) \<le> 106"
    by (rule bit_length_le)
  with rounded(1) have "s - 1 \<le> 52"
    by simp
  then have h: "(2::int) ^ (s - 1) \<le> 2 ^ 52"
    by (intro power_increasing) simp_all
  let ?q = "N div 2 ^ s" and ?r = "N mod 2 ^ s"
  have N: "N = ?q * 2 ^ s + ?r"
    by (rule div_mult_mod_eq [symmetric])
  have r: "?r < 2 ^ s"
    by simp
  show ?thesis
  proof (cases "2 ^ (s - 1) < ?r \<or> (?r = 2 ^ (s - 1) \<and> odd ?q)")
    case True
    with rounded(3) have "round53 N = ?q * 2 ^ s + 2 ^ s"
      by (simp add: algebra_simps)
    moreover have "(0::int) \<le> 2 ^ 52"
      by simp
    ultimately show ?thesis
      using N r by linarith
  next
    case False
    with rounded(3) have "round53 N = ?q * 2 ^ s" and "?r \<le> 2 ^ (s - 1)"
      by auto
    with N h show ?thesis by linarith
  qed
qed

text \<open>
  Rounding does not cross \<open>c * 2^58\<close> from a distance of \<open>6 * c\<close>; the float \<open>0.02\<close>
  times 50 is \<open>1 + 6 / 2^58\<close>.
\<close>

lemma round53_upper:
  assumes "0 \<le> N" and "N < 2 ^ 106" and "0 \<le> c" and "N \<le> c * 2 ^ 58 + 6 * c"
  shows "round53 N \<le> c * 2 ^ 58"
  using assms(1)
proof (cases N rule: round53_cases)
  case exact
  have "nat N < 2 ^ bit_length (nat N)"
    by (rule bit_length_bound)
  also from exact(1) have "\<dots> \<le> 2 ^ 53"
    by (intro power_increasing) simp_all
  finally have small: "N < 2 ^ 53"
    using assms(1) by (simp add: nat_less_iff)
  show ?thesis
  proof (cases "c = 0")
    case True
    with assms exact(2) show ?thesis by simp
  next
    case False
    with assms(3) have "1 \<le> c" by simp
    then have "1 * 2 ^ 58 \<le> c * (2::int) ^ 58"
      by (intro mult_right_mono) simp_all
    with small exact(2) show ?thesis by simp
  qed
next
  case (rounded s)
  let ?P = "(2::int) ^ s"
  let ?q = "N div ?P" and ?r = "N mod ?P" and ?h = "(2::int) ^ (s - 1)"
  from assms(1,2) have "nat N < 2 ^ 106"
    by (simp add: nat_less_iff)
  then have "bit_length (nat N) \<le> 106"
    by (rule bit_length_le)
  with rounded(1) have s53: "s \<le> 53"
    by simp
  from rounded(2) have P: "?P = 2 * ?h"
    by (cases s) simp_all
  have "nat N < 2 ^ bit_length (nat N)"
    by (rule bit_length_bound)
  with rounded(1) assms(1) have Nlt: "N < ?P * 2 ^ 53"
    by (simp add: nat_less_iff power_add)
  define c' where "c' = c * 2 ^ (58 - s)"
  from s53 have "(2::int) ^ 58 = 2 ^ (58 - s) * ?P"
    by (simp add: power_add [symmetric])
  then have C: "c * 2 ^ 58 = c' * ?P"
    by (simp add: c'_def)
  have N: "N = ?q * ?P + ?r"
    by (rule div_mult_mod_eq [symmetric])
  have r0: "0 \<le> ?r" and rP: "?r < ?P"
    by simp_all
  have q0: "0 \<le> ?q"
    using assms(1) by (simp add: pos_imp_zdiv_nonneg_iff)
  show ?thesis
  proof (cases "?q < c'")
    case True
    have "round53 N \<le> (?q + 1) * ?P"
      unfolding rounded(3) by (intro mult_right_mono) auto
    also from True have "\<dots> \<le> c' * ?P"
      by (intro mult_right_mono) simp_all
    finally show ?thesis by (simp only: C)
  next
    case False
    then have "c' * ?P \<le> ?q * ?P"
      by (intro mult_right_mono) simp_all
    with N r0 have "c' * ?P \<le> N"
      by linarith
    then have CN: "c * 2 ^ 58 \<le> N"
      by (simp only: C)
    define d where "d = N - c' * ?P"
    with CN assms(4) have d: "0 \<le> d" "d \<le> 6 * c" and Nd: "N = ?P * c' + d"
      unfolding C by simp_all
    from CN Nlt have "c * 32 * 2 ^ 53 < ?P * 2 ^ 53"
      by simp
    then have "c * 32 < ?P"
      by simp
    with d assms(3) P have dh: "d < ?h"
      by simp
    moreover have "0 < ?h" by simp
    ultimately have "d < ?P" using P by linarith
    with Nd d(1) have "?q = c'" and "?r = d"
      by (auto intro: int_div_pos_eq int_mod_pos_eq)
    with dh have "round53 N = c' * ?P"
      unfolding rounded(3) by simp
    then show ?thesis by (simp only: C)
  qed
qed

lemma fifty_two_percent: "50 * two_percent = 2 ^ 58 + 6"
  by (simp add: two_percent_def)

lemma threshold_small:
  assumes "0 \<le> T" and "T < 2 ^ 53"
  shows "threshold T = Inr (round53 (T * two_percent))"
proof -
  from assms have "nat T < 2 ^ 53"
    by (simp add: nat_less_iff)
  then have "bit_length (nat T) \<le> 53"
    by (rule bit_length_le)
  with assms(1) have "round53 T = T"
    by (simp add: round53_def Let_def)
  with assms show ?thesis
    by (simp add: threshold_def float_of_int_def)
qed

text \<open>
  For a total below \<open>2^53\<close> the comparison of a count with the float threshold is the
  comparison with 2 percent of the total.
\<close>

lemma at_least_two_percent:
  assumes "0 \<le> T" and "T < 2 ^ 53"
  shows "at_least n (round53 (T * two_percent)) \<longleftrightarrow> 2 * T \<le> 100 * n"
proof -
  let ?N = "T * two_percent"
  have N0: "0 \<le> ?N"
    using assms(1) by (simp add: two_percent_def)
  have "?N \<le> (2 ^ 53 - 1) * two_percent"
    using assms(2) by (intro mult_right_mono) (simp_all add: two_percent_def)
  then have N106: "?N < 2 ^ 106"
    by (simp add: two_percent_def)
  show ?thesis
  proof
    assume "2 * T \<le> 100 * n"
    then have T: "T \<le> 50 * n" by simp
    with assms(1) have n0: "0 \<le> n" by simp
    from T have "?N \<le> (50 * n) * two_percent"
      by (intro mult_right_mono) (simp_all add: two_percent_def)
    also have "\<dots> = n * 2 ^ 58 + 6 * n"
      using fifty_two_percent by (simp add: algebra_simps)
    finally have "round53 ?N \<le> n * 2 ^ 58"
      using N0 N106 n0 by (intro round53_upper)
    then show "at_least n (round53 ?N)"
      by (simp add: at_least_def)
  next
    assume al: "at_least n (round53 ?N)"
    show "2 * T \<le> 100 * n"
    proof (rule ccontr)
      assume "\<not> 2 * T \<le> 100 * n"
      then have T: "50 * n + 1 \<le> T" by simp
      show False
      proof (cases "0 \<le> n")
        case False
        then have "n * 2 ^ 58 < 0"
          by (simp add: mult_less_0_iff)
        with round53_nonneg [OF N0] al show False
          by (simp add: at_least_def)
      next
        case True
        from T have "(50 * n + 1) * two_percent \<le> ?N"
          by (intro mult_right_mono) (simp_all add: two_percent_def)
        moreover have "(50 * n + 1) * two_percent = n * 2 ^ 58 + 6 * n + two_percent"
          using fifty_two_percent by (simp add: algebra_simps)
        ultimately have "n * 2 ^ 58 + 6 * n + two_percent \<le> ?N"
          by simp
        with round53_lower [OF N0 N106] True have "n * 2 ^ 58 < round53 ?N"
          by (simp add: two_percent_def)
        with al show False
          by (simp add: at_least_def)
      qed
    qed
  qed
qed

lemma assign_fresh: "k \<notin> fst ` set d \<Longrightarrow> assign d k v = d @ [(k, v)]"
  by (induction d k v rule: assign.induct) auto

lemma group_small_eq:
  assumes "distinct (map fst ftypes)" and "fst ` set ftypes \<inter> fst ` set grouped = {}"
  shows "group_small ftypes thr grouped other =
           (grouped @ filter (\<lambda>(ftype, n). at_least n thr) ftypes,
            other + sum_values (filter (\<lambda>(ftype, n). \<not> at_least n thr) ftypes))"
  using assms
proof (induction ftypes arbitrary: grouped other)
  case Nil
  show ?case by (simp add: sum_values_def)
next
  case (Cons entry rest)
  obtain ftype n where entry: "entry = (ftype, n)"
    by (cases entry)
  from Cons.prems entry have fresh: "ftype \<notin> fst ` set grouped"
    and rest: "distinct (map fst rest)" and "ftype \<notin> fst ` set rest"
    and "fst ` set rest \<inter> fst ` set grouped = {}"
    by auto
  show ?case
  proof (cases "at_least n thr")
    case True
    from rest \<open>ftype \<notin> fst ` set rest\<close> \<open>fst ` set rest \<inter> fst ` set grouped = {}\<close>
    have "fst ` set rest \<inter> fst ` set (grouped @ [(ftype, n)]) = {}"
      by auto
    with rest have "group_small rest thr (grouped @ [(ftype, n)]) other =
        ((grouped @ [(ftype, n)]) @ filter (\<lambda>(ftype, n). at_least n thr) rest,
         other + sum_values (filter (\<lambda>(ftype, n). \<not> at_least n thr) rest))"
      by (rule Cons.IH)
    with True fresh show ?thesis
      by (simp add: entry assign_fresh)
  next
    case False
    from rest \<open>fst ` set rest \<inter> fst ` set grouped = {}\<close>
    have "group_small rest thr grouped (other + n) =
        (grouped @ filter (\<lambda>(ftype, n). at_least n thr) rest,
         (other + n) + sum_values (filter (\<lambda>(ftype, n). \<not> at_least n thr) rest))"
      by (rule Cons.IH)
    with False show ?thesis
      by (simp add: entry sum_values_def)
  qed
qed

lemma grouped_file_types_eq:
  assumes "distinct (map fst ftypes)" and "''Other'' \<notin> fst ` set ftypes"
    and "0 \<le> sum_values ftypes" and "sum_values ftypes < 2 ^ 53"
  shows "grouped_file_types ftypes =
           Inr (kept ftypes @
                (if 0 < merged_count ftypes then [(''Other'', merged_count ftypes)] else []))"
proof -
  let ?thr = "round53 (sum_values ftypes * two_percent)"
  have thr: "threshold (sum_values ftypes) = Inr ?thr"
    using assms(3,4) by (rule threshold_small)
  have two: "at_least n ?thr \<longleftrightarrow> 2 * sum_values ftypes \<le> 100 * n" for n
    using assms(3,4) by (rule at_least_two_percent)
  have "filter (\<lambda>(ftype, n). at_least n ?thr) ftypes = kept ftypes"
    unfolding kept_def by (rule filter_cong) (auto simp: two)
  moreover have "filter (\<lambda>(ftype, n). \<not> at_least n ?thr) ftypes =
      filter (\<lambda>(ftype, n). 100 * n < 2 * sum_values ftypes) ftypes"
    by (rule filter_cong) (auto simp: two)
  ultimately have loop: "group_small ftypes ?thr [] 0 = (kept ftypes, merged_count ftypes)"
    using group_small_eq [OF assms(1), of "[]" ?thr 0] by (simp add: merged_count_def)
  from assms(2) have "''Other'' \<notin> fst ` set (kept ftypes)"
    by (auto simp: kept_def)
  then have "assign (kept ftypes) ''Other'' (merged_count ftypes) =
      kept ftypes @ [(''Other'', merged_count ftypes)]"
    by (rule assign_fresh)
  with thr loop show ?thesis
    by (simp add: grouped_file_types_def)
qed

text \<open>
  C3. For a report whose \<open>file_types\<close> is a dict without the key \<open>Other\<close> and whose total
  count is at least 0 and below \<open>2^53\<close>: the chart keeps every category whose count is at
  least 2 percent of the total, in the order of the report, merges the count of every
  category strictly below into one number, and ends with \<open>Other\<close> and that number when it
  is positive; \<open>Other\<close> is among the labels if and only if it is positive. The report is
  left as it is.
\<close>

theorem small_file_types_grouped:
  assumes "distinct (map fst (file_types self))" and "''Other'' \<notin> fst ` set (file_types self)"
    and "0 \<le> sum_values (file_types self)" and "sum_values (file_types self) < 2 ^ 53"
  shows "\<exists>grouped.
           grouped_file_types (file_types self) = Inr grouped \<and>
           generate_file_types_chart self = Inr ((map fst grouped, map snd grouped), self) \<and>
           grouped = kept (file_types self) @
             (if 0 < merged_count (file_types self)
              then [(''Other'', merged_count (file_types self))] else []) \<and>
           (''Other'' \<in> fst ` set grouped \<longleftrightarrow> 0 < merged_count (file_types self))"
proof -
  let ?g = "kept (file_types self) @
     (if 0 < merged_count (file_types self)
      then [(''Other'', merged_count (file_types self))] else [])"
  have g: "grouped_file_types (file_types self) = Inr ?g"
    using assms by (rule grouped_file_types_eq)
  then have "generate_file_types_chart self = Inr ((map fst ?g, map snd ?g), self)"
    by (simp add: generate_file_types_chart_def)
  moreover from assms(2) have "''Other'' \<notin> fst ` set (kept (file_types self))"
    by (auto simp: kept_def)
  then have "''Other'' \<in> fst ` set ?g \<longleftrightarrow> 0 < merged_count (file_types self)"
    by auto
  ultimately show ?thesis
    using g by blast
qed

text \<open>
  Of 100 files, categories of 5 stay (counts 60, 30, 5, 5), and a category of 1 is merged
  (counts 60, 39, 1).
\<close>

theorem small_file_types_grouped_demo:
  "generate_file_types_chart demo_stats =
     Inr (([''a'', ''b'', ''c'', ''d''], [60, 30, 5, 5]), demo_stats) \<and>
   grouped_file_types [(''a'', 60), (''b'', 39), (''c'', 1)] =
     Inr [(''a'', 60), (''b'', 39), (''Other'', 1)]"
proof -
  let ?even = "[(''a'', 60), (''b'', 30), (''c'', 5), (''d'', 5)] :: (string \<times> int) list"
  let ?odd = "[(''a'', 60), (''b'', 39), (''c'', 1)] :: (string \<times> int) list"
  have even: "file_types demo_stats = ?even"
    by (simp add: demo_stats_def)
  have odd: "file_types (demo_stats\<lparr>file_types := ?odd\<rparr>) = ?odd"
    by simp
  have sums: "sum_values ?even = 100" "sum_values ?odd = 100"
    by (simp_all add: sum_values_def)
  have "kept ?even = ?even" "merged_count ?even = 0"
    and "kept ?odd = [(''a'', 60), (''b'', 39)]" "merged_count ?odd = 1"
    by (simp_all add: kept_def merged_count_def sums) (simp_all add: sum_values_def)
  with small_file_types_grouped [of demo_stats]
    small_file_types_grouped [of "demo_stats\<lparr>file_types := ?odd\<rparr>"]
  show ?thesis
    unfolding even odd sums by simp
qed

end
